theory Spec2Isabelle
  imports Main
begin

section \<open>dbcontrol: a token pool in front of database/sql\<close>

text \<open>
  The package wraps Go's database/sql and limits the number of operations that use a
  connection at the same time. The limit is a buffered channel of tokens (\<open>db.sem\<close>):
  \<open>conn()\<close> takes a token and returns a closure that gives it back; every wrapper
  decides when that closure runs.

  Conventions of the embedding.
  \<^item> A method with receiver \<open>db *DB\<close> takes the record of the pool and returns it
    updated. A closure that captured \<open>db\<close> is applied to the pool's current record.
  \<^item> A call that cannot proceed in the given state is the value \<open>Blocked\<close> (the
    goroutine is parked), a run-time panic is \<open>Panicked\<close>.
  \<^item> database/sql is outside the package. What one of its calls returns is an argument
    of the wrapper that makes the call; each underlying handle is the trace of the calls
    issued on it, so that "the wrapper called the underlying method" is a fact about the
    trace.
  \<^item> \<open>time.Duration\<close> and Go's \<open>int\<close> are integers; no arithmetic of the package can
    overflow (the only arithmetic is the counter of the loop in \<open>Open\<close>).
\<close>

subsection \<open>Outcomes and channels\<close>

datatype 'a outcome = Done 'a | Blocked | Panicked

fun bind_outcome :: "'a outcome \<Rightarrow> ('a \<Rightarrow> 'b outcome) \<Rightarrow> 'b outcome" where
  "bind_outcome (Done x) f = f x"
| "bind_outcome Blocked f = Blocked"
| "bind_outcome Panicked f = Panicked"

text \<open>A Go channel: its capacity, the values buffered in it, and whether it was closed.\<close>

record 'a chan =
  ch_cap :: nat
  ch_buf :: "'a list"
  ch_closed :: bool

definition make_chan :: "nat \<Rightarrow> 'a chan" where
  "make_chan n = \<lparr>ch_cap = n, ch_buf = [], ch_closed = False\<rparr>"

text \<open>
  \<open>c <- v\<close> with no receiver waiting: panics on a closed channel, goes into the buffer
  when there is room, waits otherwise.
\<close>

definition send :: "'a \<Rightarrow> 'a chan \<Rightarrow> 'a chan outcome" where
  "send v c =
     (if ch_closed c then Panicked
      else if length (ch_buf c) < ch_cap c then Done (c\<lparr>ch_buf := ch_buf c @ [v]\<rparr>)
      else Blocked)"

text \<open>
  \<open><-c\<close>: the oldest buffered value when there is one; the zero value at once when the
  channel is closed and drained; not ready otherwise (\<open>None\<close>).
\<close>

definition recv :: "'a \<Rightarrow> 'a chan \<Rightarrow> ('a \<times> 'a chan) option" where
  "recv zero c =
     (case ch_buf c of
        v # vs \<Rightarrow> Some (v, c\<lparr>ch_buf := vs\<rparr>)
      | [] \<Rightarrow> (if ch_closed c then Some (zero, c) else None))"

definition close_chan :: "'a chan \<Rightarrow> 'a chan outcome" where
  "close_chan c = (if ch_closed c then Panicked else Done (c\<lparr>ch_closed := True\<rparr>))"

subsection \<open>The pool\<close>

type_synonym duration = int
type_synonym error = string

text \<open>The embedded \<open>*sql.DB\<close>: the one setting the package writes to it.\<close>

record sql_DB =
  maxIdleConns :: int

text \<open>
  The goroutine that \<open>conn()\<close> starts when a usage timeout is set: the delay it waits
  for, the stack it would report, its cancellation channel, and whether it still runs.
\<close>

record timer =
  tm_after :: duration
  tm_stack :: string
  tm_cancelCh :: "unit chan"
  tm_running :: bool

text \<open>
  \<open>type DB struct\<close>. \<open>timers\<close> is not a field of the struct: it lists the timeout
  goroutines started on behalf of this pool, in the order of their creation. The two
  mutexes of the struct are not in this record: the functions on \<open>DB\<close> describe a call
  that finds both mutexes free, and the mutexes themselves are part of the state of a
  pool shared by goroutines (\<open>lsys\<close> below), where a call can wait for them.
\<close>

record DB =
  sqlDB :: sql_DB
  maxConns :: int
  sem :: "bool chan option"
  blockCh :: "duration chan option"
  usageTimeout :: duration
  usageTimeoutCh :: "string chan option"
  timers :: "timer list"

text \<open>
  The closure returned by \<open>conn()\<close>: \<open>releaseLock\<close> sends a token to \<open>db.sem\<close> or does
  nothing, \<open>cancelUsageTimeout\<close> cancels the timer it was created with or does nothing.
\<close>

record release =
  rel_lock :: bool
  rel_timer :: "nat option"

definition dummyRelease :: release where
  "dummyRelease = \<lparr>rel_lock = False, rel_timer = None\<rparr>"

definition releaseLock :: "bool \<Rightarrow> DB \<Rightarrow> DB outcome" where
  "releaseLock l db =
     (if \<not> l then Done db
      else case sem db of
             None \<Rightarrow> Blocked
           | Some ch \<Rightarrow> bind_outcome (send True ch) (\<lambda>ch'. Done (db\<lparr>sem := Some ch'\<rparr>)))"

definition cancelUsageTimeout :: "nat option \<Rightarrow> DB \<Rightarrow> DB outcome" where
  "cancelUsageTimeout t db =
     (case t of
        None \<Rightarrow> Done db
      | Some i \<Rightarrow>
          (if i < length (timers db) then
             bind_outcome (send () (tm_cancelCh (timers db ! i))) (\<lambda>c1.
             bind_outcome (close_chan c1) (\<lambda>c2.
               Done (db\<lparr>timers := (timers db)[i := (timers db ! i)\<lparr>tm_cancelCh := c2\<rparr>]\<rparr>)))
           else Panicked))"

definition run_release :: "release \<Rightarrow> DB \<Rightarrow> DB outcome" where
  "run_release r db =
     bind_outcome (releaseLock (rel_lock r) db) (cancelUsageTimeout (rel_timer r))"

subsection \<open>sql.go: the setters and the acquisition\<close>

definition SetBlockDurationCh :: "duration chan option \<Rightarrow> DB \<Rightarrow> DB outcome" where
  "SetBlockDurationCh c db =
     (case blockCh db of
        None \<Rightarrow> Done (db\<lparr>blockCh := c\<rparr>)
      | Some old \<Rightarrow> bind_outcome (close_chan old) (\<lambda>_. Done (db\<lparr>blockCh := c\<rparr>)))"

definition SetUsageTimeout :: "string chan option \<Rightarrow> duration \<Rightarrow> DB \<Rightarrow> DB" where
  "SetUsageTimeout c timeout db =
     (let db1 = db\<lparr>usageTimeoutCh := c\<rparr>
      in if c \<noteq> None then db1\<lparr>usageTimeout := timeout\<rparr> else db1\<lparr>usageTimeout := 0\<rparr>)"

text \<open>
  The second half of \<open>conn()\<close>, from the read of \<open>db.usageTimeout\<close> on: \<open>l\<close> tells
  whether \<open>releaseLock\<close> was set to the closure that sends a token.
\<close>

definition conn_usage :: "string \<Rightarrow> bool \<Rightarrow> DB \<Rightarrow> DB \<times> release" where
  "conn_usage stack l db =
     (if usageTimeout db \<noteq> 0 then
        (db\<lparr>timers := timers db @
               [\<lparr>tm_after = usageTimeout db, tm_stack = stack,
                 tm_cancelCh = make_chan 1, tm_running = True\<rparr>]\<rparr>,
         \<lparr>rel_lock = l, rel_timer = Some (length (timers db))\<rparr>)
      else (db, \<lparr>rel_lock = l, rel_timer = None\<rparr>))"

text \<open>
  \<open>conn()\<close> as seen at the call, when \<open>usageTimeoutMux\<close> is free: with no channel it
  goes straight to the second half; with a token at hand the first \<open>select\<close> case takes
  it; otherwise the goroutine parks at \<open><-db.sem\<close> in the default case. \<open>stack\<close> is
  what \<open>debug.Stack()\<close> returns. The wait at \<open>usageTimeoutMux.RLock()\<close> is in \<open>lstep\<close>.
\<close>

definition conn :: "string \<Rightarrow> DB \<Rightarrow> (DB \<times> release) outcome" where
  "conn stack db =
     (case sem db of
        None \<Rightarrow> Done (conn_usage stack False db)
      | Some ch \<Rightarrow>
          (case recv False ch of
             Some (_, ch') \<Rightarrow> Done (conn_usage stack True (db\<lparr>sem := Some ch'\<rparr>))
           | None \<Rightarrow> Blocked))"

text \<open>
  The default case of the \<open>select\<close>, resumed in a later state of the pool: the parked
  receive gets its token, then the wait \<open>d\<close> is sent to \<open>db.blockCh\<close> when that is set,
  then the second half runs.
\<close>

definition conn_take :: "DB \<Rightarrow> DB outcome" where
  "conn_take db =
     (case sem db of
        None \<Rightarrow> Blocked
      | Some ch \<Rightarrow>
          (case recv False ch of
             Some (_, ch') \<Rightarrow> Done (db\<lparr>sem := Some ch'\<rparr>)
           | None \<Rightarrow> Blocked))"

definition conn_report :: "duration \<Rightarrow> string \<Rightarrow> DB \<Rightarrow> (DB \<times> release) outcome" where
  "conn_report d stack db =
     (case blockCh db of
        None \<Rightarrow> Done (conn_usage stack True db)
      | Some bc \<Rightarrow>
          bind_outcome (send d bc) (\<lambda>bc'. Done (conn_usage stack True (db\<lparr>blockCh := Some bc'\<rparr>))))"

definition conn_unblock :: "duration \<Rightarrow> string \<Rightarrow> DB \<Rightarrow> (DB \<times> release) outcome" where
  "conn_unblock d stack db = bind_outcome (conn_take db) (conn_report d stack)"

text \<open>The body of the goroutine of a timer: expiry, or the receipt of the cancellation.\<close>

definition timer_expire :: "nat \<Rightarrow> DB \<Rightarrow> DB outcome" where
  "timer_expire i db =
     (if i < length (timers db) \<and> tm_running (timers db ! i) then
        (let stopped = (timers db)[i := (timers db ! i)\<lparr>tm_running := False\<rparr>]
         in case usageTimeoutCh db of
              None \<Rightarrow> Done (db\<lparr>timers := stopped\<rparr>)
            | Some c \<Rightarrow>
                bind_outcome (send (tm_stack (timers db ! i)) c) (\<lambda>c'.
                  Done (db\<lparr>usageTimeoutCh := Some c', timers := stopped\<rparr>)))
      else Blocked)"

definition timer_cancelled :: "nat \<Rightarrow> DB \<Rightarrow> DB outcome" where
  "timer_cancelled i db =
     (if i < length (timers db) \<and> tm_running (timers db ! i) then
        (case recv () (tm_cancelCh (timers db ! i)) of
           None \<Rightarrow> Blocked
         | Some (_, c') \<Rightarrow>
             Done (db\<lparr>timers := (timers db)[i := (timers db ! i)\<lparr>tm_cancelCh := c', tm_running := False\<rparr>]\<rparr>))
      else Blocked)"

subsection \<open>The handles of database/sql\<close>

text \<open>
  The package sees of an underlying cursor or transaction only what its methods return.
  A handle is therefore the list of the calls made on it so far; what each call returns
  is an argument of the wrapper. A prepared statement is the text it was prepared from.
  Of a \<open>*sql.Row\<close> the model keeps the one documented fact that matters here: when the
  query fails, \<open>QueryRow\<close> still returns a row, and the error stays in it until \<open>Scan\<close>.
\<close>

datatype sql_call =
  Call_Next | Call_Err | Call_Close | Call_Scan | Call_Exec | Call_Prepare
  | Call_Query | Call_QueryRow | Call_Commit | Call_Rollback | Call_Stmt

type_synonym sql_handle = "sql_call list"
type_synonym sql_Stmt = string

record sql_Row =
  row_err :: "error option"
  row_calls :: "sql_call list"

definition sql_Row_Scan :: "sql_Row \<Rightarrow> error option \<Rightarrow> sql_Row \<times> error option" where
  "sql_Row_Scan sr decoded =
     (sr\<lparr>row_calls := row_calls sr @ [Call_Scan]\<rparr>,
      case row_err sr of Some e \<Rightarrow> Some e | None \<Rightarrow> decoded)"

record Rows =
  Rows_sql :: "sql_handle option"
  Rows_closed :: bool
  Rows_release :: release

record Row =
  Row_sql :: sql_Row
  Row_closed :: bool
  Row_release :: release

text \<open>\<open>Stmt.db\<close> is nil or points to the pool the statement was prepared on.\<close>

datatype db_ptr = Nil_db | This_db

record Stmt =
  Stmt_stmt :: sql_Stmt
  Stmt_db :: db_ptr

record Tx =
  Tx_trn :: sql_handle
  Tx_closed :: bool
  Tx_release :: release

subsection \<open>sql.go: the operations of the pool\<close>

text \<open>
  Every operation is \<open>conn()\<close> followed by a continuation that takes the closure and
  the pool as it is when the underlying call has returned. The query text and its
  arguments only travel to database/sql and are left out.
\<close>

text \<open>\<open>defer release()\<close> around an underlying call that returned \<open>res\<close>.\<close>

definition deferred :: "release \<Rightarrow> 'r \<Rightarrow> DB \<Rightarrow> (DB \<times> 'r) outcome" where
  "deferred r res db = bind_outcome (run_release r db) (\<lambda>db'. Done (db', res))"

definition SetMaxIdleConns :: "int \<Rightarrow> DB \<Rightarrow> DB" where
  "SetMaxIdleConns n db =
     (if sem db = None then db\<lparr>sqlDB := (sqlDB db)\<lparr>maxIdleConns := n\<rparr>\<rparr> else db)"

definition Ping :: "string \<Rightarrow> error option \<Rightarrow> DB \<Rightarrow> (DB \<times> error option) outcome" where
  "Ping stack err db = bind_outcome (conn stack db) (\<lambda>(db1, r). deferred r err db1)"

definition Exec :: "string \<Rightarrow> 'r \<times> error option \<Rightarrow> DB \<Rightarrow> (DB \<times> 'r \<times> error option) outcome" where
  "Exec stack res db = bind_outcome (conn stack db) (\<lambda>(db1, r). deferred r res db1)"

text \<open>
  The part of \<open>DB.Query\<close> and \<open>Stmt.Query\<close> after the underlying query returned
  \<open>(rows, err)\<close>.
\<close>

definition Query_finish ::
  "release \<Rightarrow> sql_handle option \<times> error option \<Rightarrow> DB \<Rightarrow> (DB \<times> Rows option \<times> error option) outcome"
where
  "Query_finish r res db =
     (case snd res of
        Some e \<Rightarrow> bind_outcome (run_release r db) (\<lambda>db'. Done (db', None, Some e))
      | None \<Rightarrow>
          Done (db, Some \<lparr>Rows_sql = fst res, Rows_closed = False, Rows_release = r\<rparr>, None))"

definition Query ::
  "string \<Rightarrow> sql_handle option \<times> error option \<Rightarrow> DB \<Rightarrow> (DB \<times> Rows option \<times> error option) outcome"
where
  "Query stack res db = bind_outcome (conn stack db) (\<lambda>(db1, r). Query_finish r res db1)"

text \<open>
  \<open>Rows.Next\<close>: \<open>nxt\<close> is what the underlying \<open>Next()\<close> returns and \<open>err\<close> what the
  underlying \<open>Err()\<close> returns, which is asked only when \<open>nxt\<close> is false. Calling a method
  of a nil \<open>*sql.Rows\<close> panics.
\<close>

definition Rows_Next :: "Rows \<Rightarrow> bool \<Rightarrow> error option \<Rightarrow> DB \<Rightarrow> (Rows \<times> DB \<times> bool) outcome" where
  "Rows_Next rows nxt err db =
     (if Rows_closed rows then Done (rows, db, False)
      else case Rows_sql rows of
             None \<Rightarrow> Panicked
           | Some h \<Rightarrow>
               (if nxt then Done (rows\<lparr>Rows_sql := Some (h @ [Call_Next])\<rparr>, db, nxt)
                else if err = None then
                  bind_outcome (run_release (Rows_release rows) db) (\<lambda>db'.
                    Done (rows\<lparr>Rows_sql := Some (h @ [Call_Next, Call_Err]), Rows_closed := True\<rparr>,
                          db', nxt))
                else Done (rows\<lparr>Rows_sql := Some (h @ [Call_Next, Call_Err])\<rparr>, db, nxt)))"

definition Rows_Close :: "Rows \<Rightarrow> error option \<Rightarrow> DB \<Rightarrow> (Rows \<times> DB \<times> error option) outcome" where
  "Rows_Close rows err db =
     (case Rows_sql rows of
        None \<Rightarrow> Panicked
      | Some h \<Rightarrow>
          (let rows1 = rows\<lparr>Rows_sql := Some (h @ [Call_Close])\<rparr>
           in if \<not> Rows_closed rows then
                bind_outcome (run_release (Rows_release rows) db) (\<lambda>db'.
                  Done (rows1\<lparr>Rows_closed := True\<rparr>, db', err))
              else Done (rows1, db, err)))"

definition QueryRow_finish :: "release \<Rightarrow> sql_Row \<Rightarrow> Row" where
  "QueryRow_finish r row = \<lparr>Row_sql = row, Row_closed = False, Row_release = r\<rparr>"

definition QueryRow :: "string \<Rightarrow> sql_Row \<Rightarrow> DB \<Rightarrow> (DB \<times> Row) outcome" where
  "QueryRow stack row db =
     bind_outcome (conn stack db) (\<lambda>(db1, r). Done (db1, QueryRow_finish r row))"

text \<open>\<open>Row.Scan\<close>: \<open>decoded\<close> is the result of decoding a row of a query that succeeded.\<close>

definition Row_Scan :: "Row \<Rightarrow> error option \<Rightarrow> DB \<Rightarrow> (Row \<times> DB \<times> error option) outcome" where
  "Row_Scan row decoded db =
     (let (sr, err) = sql_Row_Scan (Row_sql row) decoded;
          row1 = row\<lparr>Row_sql := sr\<rparr>
      in if \<not> Row_closed row then
           bind_outcome (run_release (Row_release row) db) (\<lambda>db'.
             Done (row1\<lparr>Row_closed := True\<rparr>, db', err))
         else Done (row1, db, err))"

text \<open>database/sql returns either a statement (a transaction) or an error.\<close>

definition Prepare_result :: "error + sql_Stmt \<Rightarrow> Stmt option \<times> error option" where
  "Prepare_result res =
     (case res of
        Inl e \<Rightarrow> (None, Some e)
      | Inr stmt \<Rightarrow> (Some \<lparr>Stmt_stmt = stmt, Stmt_db = This_db\<rparr>, None))"

definition Prepare ::
  "string \<Rightarrow> error + sql_Stmt \<Rightarrow> DB \<Rightarrow> (DB \<times> Stmt option \<times> error option) outcome"
where
  "Prepare stack res db =
     bind_outcome (conn stack db) (\<lambda>(db1, r). deferred r (Prepare_result res) db1)"

definition Stmt_Exec ::
  "string \<Rightarrow> Stmt \<Rightarrow> 'r \<times> error option \<Rightarrow> DB \<Rightarrow> (DB \<times> 'r \<times> error option) outcome"
where
  "Stmt_Exec stack s res db =
     (if Stmt_db s \<noteq> Nil_db then
        bind_outcome (conn stack db) (\<lambda>(db1, r). deferred r res db1)
      else Done (db, res))"

definition Stmt_Query ::
  "string \<Rightarrow> Stmt \<Rightarrow> sql_handle option \<times> error option \<Rightarrow> DB
     \<Rightarrow> (DB \<times> Rows option \<times> error option) outcome"
where
  "Stmt_Query stack s res db =
     bind_outcome (if Stmt_db s = Nil_db then Done (db, dummyRelease) else conn stack db)
       (\<lambda>(db1, release). Query_finish release res db1)"

definition Stmt_QueryRow :: "string \<Rightarrow> Stmt \<Rightarrow> sql_Row \<Rightarrow> DB \<Rightarrow> (DB \<times> Row) outcome" where
  "Stmt_QueryRow stack s row db =
     bind_outcome (if Stmt_db s = Nil_db then Done (db, dummyRelease) else conn stack db)
       (\<lambda>(db1, release). Done (db1, QueryRow_finish release row))"

definition Begin_finish ::
  "release \<Rightarrow> error + sql_handle \<Rightarrow> DB \<Rightarrow> (DB \<times> Tx option \<times> error option) outcome"
where
  "Begin_finish r res db =
     (case res of
        Inl e \<Rightarrow> bind_outcome (run_release r db) (\<lambda>db'. Done (db', None, Some e))
      | Inr tx \<Rightarrow> Done (db, Some \<lparr>Tx_trn = tx, Tx_closed = False, Tx_release = r\<rparr>, None))"

definition Begin ::
  "string \<Rightarrow> error + sql_handle \<Rightarrow> DB \<Rightarrow> (DB \<times> Tx option \<times> error option) outcome"
where
  "Begin stack res db = bind_outcome (conn stack db) (\<lambda>(db1, r). Begin_finish r res db1)"

text \<open>
  \<open>Tx.Commit\<close> and \<open>Tx.Rollback\<close>: the deferred function is registered when the
  transaction is not closed, the underlying call is made either way and returns \<open>err\<close>,
  then the deferred function runs.
\<close>

definition Tx_Commit :: "Tx \<Rightarrow> error option \<Rightarrow> DB \<Rightarrow> (Tx \<times> DB \<times> error option) outcome" where
  "Tx_Commit tx err db =
     (let tx1 = tx\<lparr>Tx_trn := Tx_trn tx @ [Call_Commit]\<rparr>
      in if \<not> Tx_closed tx then
           bind_outcome (run_release (Tx_release tx) db) (\<lambda>db'.
             Done (tx1\<lparr>Tx_closed := True\<rparr>, db', err))
         else Done (tx1, db, err))"

definition Tx_Rollback :: "Tx \<Rightarrow> error option \<Rightarrow> DB \<Rightarrow> (Tx \<times> DB \<times> error option) outcome" where
  "Tx_Rollback tx err db =
     (let tx1 = tx\<lparr>Tx_trn := Tx_trn tx @ [Call_Rollback]\<rparr>
      in if \<not> Tx_closed tx then
           bind_outcome (run_release (Tx_release tx) db) (\<lambda>db'.
             Done (tx1\<lparr>Tx_closed := True\<rparr>, db', err))
         else Done (tx1, db, err))"

definition Tx_Exec :: "Tx \<Rightarrow> 'r \<times> error option \<Rightarrow> Tx \<times> 'r \<times> error option" where
  "Tx_Exec tx res = (tx\<lparr>Tx_trn := Tx_trn tx @ [Call_Exec]\<rparr>, res)"

definition Tx_Prepare :: "Tx \<Rightarrow> error + sql_Stmt \<Rightarrow> Tx \<times> Stmt option \<times> error option" where
  "Tx_Prepare tx res =
     (tx\<lparr>Tx_trn := Tx_trn tx @ [Call_Prepare]\<rparr>,
      case res of
        Inl e \<Rightarrow> (None, Some e)
      | Inr stmt \<Rightarrow> (Some \<lparr>Stmt_stmt = stmt, Stmt_db = Nil_db\<rparr>, None))"

definition Tx_Query :: "Tx \<Rightarrow> sql_handle option \<times> error option \<Rightarrow> Tx \<times> Rows option \<times> error option" where
  "Tx_Query tx res =
     (tx\<lparr>Tx_trn := Tx_trn tx @ [Call_Query]\<rparr>,
      Some \<lparr>Rows_sql = fst res, Rows_closed = False, Rows_release = dummyRelease\<rparr>, snd res)"

definition Tx_QueryRow :: "Tx \<Rightarrow> sql_Row \<Rightarrow> Tx \<times> Row" where
  "Tx_QueryRow tx row =
     (tx\<lparr>Tx_trn := Tx_trn tx @ [Call_QueryRow]\<rparr>,
      \<lparr>Row_sql = row, Row_closed = False, Row_release = dummyRelease\<rparr>)"

text \<open>\<open>Tx.Stmt\<close>: \<open>newStmt\<close> is what the underlying \<open>Stmt\<close> makes of \<open>stmt.stmt\<close>.\<close>

definition Tx_Stmt :: "Tx \<Rightarrow> Stmt \<Rightarrow> sql_Stmt \<Rightarrow> Tx \<times> Stmt" where
  "Tx_Stmt tx stmt newStmt =
     (tx\<lparr>Tx_trn := Tx_trn tx @ [Call_Stmt]\<rparr>, \<lparr>Stmt_stmt = newStmt, Stmt_db = Nil_db\<rparr>)"

subsection \<open>limit.go and db.go: the global setting and the creation of a pool\<close>

text \<open>
  The package-level variable \<open>concurrency\<close> and the pools opened so far; a \<open>*DB\<close> is the
  position of its pool in the list.
\<close>

record world =
  concurrency :: int
  pools :: "DB list"

definition SetConcurrency :: "int \<Rightarrow> world \<Rightarrow> world" where
  "SetConcurrency count w =
     (if count > 0 then w\<lparr>concurrency := count\<rparr> else w\<lparr>concurrency := 0\<rparr>)"

definition Concurrency :: "world \<Rightarrow> int" where
  "Concurrency w = concurrency w"

text \<open>\<open>for i := 0; i < c; i++ { db.sem <- true }\<close>\<close>

function feed :: "int \<Rightarrow> int \<Rightarrow> bool chan \<Rightarrow> bool chan outcome" where
  "feed i c ch =
     (if i < c then
        (case send True ch of
           Done ch' \<Rightarrow> feed (i + 1) c ch'
         | Blocked \<Rightarrow> Blocked
         | Panicked \<Rightarrow> Panicked)
      else Done ch)"
  by pat_completeness auto
termination
  by (relation "measure (\<lambda>(i, c, ch). nat (c - i))") auto

text \<open>The body of \<open>Open\<close> once \<open>sql.Open\<close> has returned \<open>sqldb\<close>; \<open>c\<close> is \<open>Concurrency()\<close>.\<close>

definition new_DB :: "int \<Rightarrow> sql_DB \<Rightarrow> DB outcome" where
  "new_DB c sqldb =
     (let db = \<lparr>sqlDB = sqldb, maxConns = 0, sem = None, blockCh = None, usageTimeout = 0,
                usageTimeoutCh = None, timers = []\<rparr>
      in if c > 0 then
           bind_outcome (feed 0 c (make_chan (nat c))) (\<lambda>ch.
             Done (db\<lparr>sem := Some ch, sqlDB := sqldb\<lparr>maxIdleConns := c\<rparr>, maxConns := c\<rparr>))
         else Done db)"

definition Open :: "error + sql_DB \<Rightarrow> world \<Rightarrow> (world \<times> (error + nat)) outcome" where
  "Open opened w =
     (case opened of
        Inl err \<Rightarrow> Done (w, Inl err)
      | Inr sqldb \<Rightarrow>
          bind_outcome (new_DB (Concurrency w) sqldb) (\<lambda>db.
            Done (w\<lparr>pools := pools w @ [db]\<rparr>, Inr (length (pools w)))))"

definition MaxConns :: "DB \<Rightarrow> int" where
  "MaxConns db = maxConns db"

subsection \<open>A pool and its clients\<close>

text \<open>
  Goroutines share one pool. A state of the whole holds the pool, the goroutines that
  received their token in the default case of \<open>conn()\<close> and have not left \<open>conn()\<close> yet,
  the closures of the calls that are between \<open>conn()\<close> and their continuation, and the
  cursors, rows and transactions handed to callers.
\<close>

record sys =
  pool :: DB
  taking :: nat
  calls :: "release list"
  cursors :: "Rows list"
  singles :: "Row list"
  txs :: "Tx list"

definition init :: "DB \<Rightarrow> sys" where
  "init db = \<lparr>pool = db, taking = 0, calls = [], cursors = [], singles = [], txs = []\<rparr>"

text \<open>
  What can happen next. Each action is one of the functions above, run by some goroutine
  on the current state, with what database/sql or the clock returned to it. Here every
  call finds the two mutexes free; \<open>lstep\<close> below adds the waits at the mutexes.
\<close>

datatype action =
    A_conn string
  | A_take
  | A_report duration string
  | A_return nat
  | A_query nat "sql_handle option \<times> error option"
  | A_queryrow nat sql_Row
  | A_begin nat "error + sql_handle"
  | A_next nat bool "error option"
  | A_close nat "error option"
  | A_scan nat "error option"
  | A_commit nat "error option"
  | A_rollback nat "error option"
  | A_tx_query nat "sql_handle option \<times> error option"
  | A_tx_queryrow nat sql_Row
  | A_tx_stmt_query string sql_Stmt "sql_handle option \<times> error option"
  | A_tx_stmt_queryrow string sql_Stmt sql_Row
  | A_set_block "duration chan option"
  | A_set_usage "string chan option" duration
  | A_set_idle int
  | A_expire nat
  | A_cancelled nat

definition remove_nth :: "nat \<Rightarrow> 'a list \<Rightarrow> 'a list" where
  "remove_nth i xs = take i xs @ drop (Suc i) xs"

definition handed :: "'a option \<Rightarrow> 'a list" where
  "handed x = (case x of None \<Rightarrow> [] | Some h \<Rightarrow> [h])"

fun step :: "action \<Rightarrow> sys \<Rightarrow> sys outcome" where
  "step (A_conn stack) s =
     bind_outcome (conn stack (pool s)) (\<lambda>(db, r).
       Done (s\<lparr>pool := db, calls := calls s @ [r]\<rparr>))"
| "step A_take s =
     bind_outcome (conn_take (pool s)) (\<lambda>db. Done (s\<lparr>pool := db, taking := taking s + 1\<rparr>))"
| "step (A_report d stack) s =
     (if taking s = 0 then Blocked
      else bind_outcome (conn_report d stack (pool s)) (\<lambda>(db, r).
             Done (s\<lparr>pool := db, taking := taking s - 1, calls := calls s @ [r]\<rparr>)))"
| "step (A_return i) s =
     (if i < length (calls s) then
        bind_outcome (deferred (calls s ! i) () (pool s)) (\<lambda>(db, _).
          Done (s\<lparr>pool := db, calls := remove_nth i (calls s)\<rparr>))
      else Blocked)"
| "step (A_query i res) s =
     (if i < length (calls s) then
        bind_outcome (Query_finish (calls s ! i) res (pool s)) (\<lambda>(db, rows, err).
          Done (s\<lparr>pool := db, calls := remove_nth i (calls s),
                  cursors := cursors s @ handed rows\<rparr>))
      else Blocked)"
| "step (A_queryrow i row) s =
     (if i < length (calls s) then
        Done (s\<lparr>calls := remove_nth i (calls s),
                singles := singles s @ [QueryRow_finish (calls s ! i) row]\<rparr>)
      else Blocked)"
| "step (A_begin i res) s =
     (if i < length (calls s) then
        bind_outcome (Begin_finish (calls s ! i) res (pool s)) (\<lambda>(db, tx, err).
          Done (s\<lparr>pool := db, calls := remove_nth i (calls s), txs := txs s @ handed tx\<rparr>))
      else Blocked)"
| "step (A_next j nxt err) s =
     (if j < length (cursors s) then
        bind_outcome (Rows_Next (cursors s ! j) nxt err (pool s)) (\<lambda>(rows, db, _).
          Done (s\<lparr>pool := db, cursors := (cursors s)[j := rows]\<rparr>))
      else Blocked)"
| "step (A_close j err) s =
     (if j < length (cursors s) then
        bind_outcome (Rows_Close (cursors s ! j) err (pool s)) (\<lambda>(rows, db, _).
          Done (s\<lparr>pool := db, cursors := (cursors s)[j := rows]\<rparr>))
      else Blocked)"
| "step (A_scan j decoded) s =
     (if j < length (singles s) then
        bind_outcome (Row_Scan (singles s ! j) decoded (pool s)) (\<lambda>(row, db, _).
          Done (s\<lparr>pool := db, singles := (singles s)[j := row]\<rparr>))
      else Blocked)"
| "step (A_commit k err) s =
     (if k < length (txs s) then
        bind_outcome (Tx_Commit (txs s ! k) err (pool s)) (\<lambda>(tx, db, _).
          Done (s\<lparr>pool := db, txs := (txs s)[k := tx]\<rparr>))
      else Blocked)"
| "step (A_rollback k err) s =
     (if k < length (txs s) then
        bind_outcome (Tx_Rollback (txs s ! k) err (pool s)) (\<lambda>(tx, db, _).
          Done (s\<lparr>pool := db, txs := (txs s)[k := tx]\<rparr>))
      else Blocked)"
| "step (A_tx_query k res) s =
     (if k < length (txs s) then
        (case Tx_Query (txs s ! k) res of
           (tx, rows, err) \<Rightarrow>
             Done (s\<lparr>txs := (txs s)[k := tx], cursors := cursors s @ handed rows\<rparr>))
      else Blocked)"
| "step (A_tx_queryrow k row) s =
     (if k < length (txs s) then
        (case Tx_QueryRow (txs s ! k) row of
           (tx, r) \<Rightarrow> Done (s\<lparr>txs := (txs s)[k := tx], singles := singles s @ [r]\<rparr>))
      else Blocked)"
| "step (A_tx_stmt_query stack q res) s =
     bind_outcome (Stmt_Query stack \<lparr>Stmt_stmt = q, Stmt_db = Nil_db\<rparr> res (pool s))
       (\<lambda>(db, rows, err). Done (s\<lparr>pool := db, cursors := cursors s @ handed rows\<rparr>))"
| "step (A_tx_stmt_queryrow stack q row) s =
     bind_outcome (Stmt_QueryRow stack \<lparr>Stmt_stmt = q, Stmt_db = Nil_db\<rparr> row (pool s))
       (\<lambda>(db, r). Done (s\<lparr>pool := db, singles := singles s @ [r]\<rparr>))"
| "step (A_set_block c) s =
     bind_outcome (SetBlockDurationCh c (pool s)) (\<lambda>db. Done (s\<lparr>pool := db\<rparr>))"
| "step (A_set_usage c d) s = Done (s\<lparr>pool := SetUsageTimeout c d (pool s)\<rparr>)"
| "step (A_set_idle n) s = Done (s\<lparr>pool := SetMaxIdleConns n (pool s)\<rparr>)"
| "step (A_expire i) s =
     bind_outcome (timer_expire i (pool s)) (\<lambda>db. Done (s\<lparr>pool := db\<rparr>))"
| "step (A_cancelled i) s =
     bind_outcome (timer_cancelled i (pool s)) (\<lambda>db. Done (s\<lparr>pool := db\<rparr>))"

fun exec :: "action list \<Rightarrow> sys \<Rightarrow> sys outcome" where
  "exec [] s = Done s"
| "exec (a # as) s = bind_outcome (step a s) (exec as)"

text \<open>The tokens in the channel, and the tokens taken and not yet given back.\<close>

definition available :: "DB \<Rightarrow> nat" where
  "available db = (case sem db of None \<Rightarrow> 0 | Some ch \<Rightarrow> length (ch_buf ch))"

definition holds :: "bool \<Rightarrow> release \<Rightarrow> nat" where
  "holds closed r = (if \<not> closed \<and> rel_lock r then 1 else 0)"

definition outstanding :: "sys \<Rightarrow> nat" where
  "outstanding s =
     taking s
     + sum_list (map (holds False) (calls s))
     + sum_list (map (\<lambda>c. holds (Rows_closed c) (Rows_release c)) (cursors s))
     + sum_list (map (\<lambda>r. holds (Row_closed r) (Row_release r)) (singles s))
     + sum_list (map (\<lambda>t. holds (Tx_closed t) (Tx_release t)) (txs s))"

text \<open>
  A token channel in good order: open and not over its capacity. The package never closes
  \<open>db.sem\<close> and the field is not exported.
\<close>

definition sem_ok :: "DB \<Rightarrow> bool" where
  "sem_ok db =
     (case sem db of
        None \<Rightarrow> True
      | Some ch \<Rightarrow> \<not> ch_closed ch \<and> length (ch_buf ch) \<le> ch_cap ch)"

subsection \<open>One caller using one handle\<close>

text \<open>
  The calls a caller makes on a cursor, on a transaction and on a single row, one after
  the other, each with what database/sql returned to it.
\<close>

datatype rows_call = Next bool "error option" | Close "error option"

fun Rows_calls :: "rows_call list \<Rightarrow> Rows \<Rightarrow> DB \<Rightarrow> (Rows \<times> DB) outcome" where
  "Rows_calls [] rows db = Done (rows, db)"
| "Rows_calls (Next nxt err # cs) rows db =
     bind_outcome (Rows_Next rows nxt err db) (\<lambda>(rows', db', _). Rows_calls cs rows' db')"
| "Rows_calls (Close err # cs) rows db =
     bind_outcome (Rows_Close rows err db) (\<lambda>(rows', db', _). Rows_calls cs rows' db')"

text \<open>The calls that end a cursor: \<open>Next\<close> at the end of the results, and \<open>Close\<close>.\<close>

fun ends_cursor :: "rows_call \<Rightarrow> bool" where
  "ends_cursor (Next nxt err) = (\<not> nxt \<and> err = None)"
| "ends_cursor (Close err) = True"

fun is_Close :: "rows_call \<Rightarrow> bool" where
  "is_Close (Close err) = True"
| "is_Close (Next nxt err) = False"

datatype tx_call = Commit "error option" | Rollback "error option"

fun Tx_calls :: "tx_call list \<Rightarrow> Tx \<Rightarrow> DB \<Rightarrow> (Tx \<times> DB) outcome" where
  "Tx_calls [] tx db = Done (tx, db)"
| "Tx_calls (Commit err # cs) tx db =
     bind_outcome (Tx_Commit tx err db) (\<lambda>(tx', db', _). Tx_calls cs tx' db')"
| "Tx_calls (Rollback err # cs) tx db =
     bind_outcome (Tx_Rollback tx err db) (\<lambda>(tx', db', _). Tx_calls cs tx' db')"

fun underlying_call :: "tx_call \<Rightarrow> sql_call" where
  "underlying_call (Commit err) = Call_Commit"
| "underlying_call (Rollback err) = Call_Rollback"

fun Row_scans :: "error option list \<Rightarrow> Row \<Rightarrow> DB \<Rightarrow> (Row \<times> DB) outcome" where
  "Row_scans [] row db = Done (row, db)"
| "Row_scans (decoded # ds) row db =
     bind_outcome (Row_Scan row decoded db) (\<lambda>(row', db', _). Row_scans ds row' db')"

text \<open>
  \<open>bounded n db k\<close>: the pool has an open token channel of capacity \<open>n\<close>, and \<open>k\<close>
  tokens are missing from it.
\<close>

definition bounded :: "nat \<Rightarrow> DB \<Rightarrow> nat \<Rightarrow> bool" where
  "bounded n db k =
     (case sem db of
        None \<Rightarrow> False
      | Some ch \<Rightarrow> ch_cap ch = n \<and> \<not> ch_closed ch \<and> length (ch_buf ch) + k = n)"

text \<open>
  What every operation but \<open>SetUsageTimeout\<close> keeps: the timeout, the mode of the pool,
  and, while the timeout is zero, the number of timers started.
\<close>

definition follows :: "DB \<Rightarrow> DB \<Rightarrow> bool" where
  "follows db db' =
     (usageTimeout db' = usageTimeout db
      \<and> (sem db' = None) = (sem db = None)
      \<and> (usageTimeout db = 0 \<longrightarrow> length (timers db') = length (timers db)))"

text \<open>The calls of \<open>SetUsageTimeout\<close> with a channel that is not nil.\<close>

fun arms_timeout :: "action \<Rightarrow> bool" where
  "arms_timeout (A_set_usage c d) = (c \<noteq> None)"
| "arms_timeout a = False"

text \<open>
  The two steps of an acquisition that had to wait, and the calls of
  \<open>SetBlockDurationCh\<close>.
\<close>

fun waits :: "action \<Rightarrow> bool" where
  "waits A_take = True"
| "waits (A_report d stack) = True"
| "waits a = False"

fun sets_block :: "action \<Rightarrow> bool" where
  "sets_block (A_set_block c) = True"
| "sets_block a = False"

text \<open>How often \<open>Close\<close> was called on an underlying cursor.\<close>

definition closes :: "sql_handle \<Rightarrow> nat" where
  "closes h = length (filter (\<lambda>c. c = Call_Close) h)"

subsection \<open>The two mutexes\<close>

text \<open>
  A \<open>sync.RWMutex\<close>: how many goroutines hold it for reading, whether one holds it for
  writing, and how many are inside \<open>Lock()\<close> and do not have it yet. \<open>RLock()\<close> parks
  while a writer holds the mutex or waits for it; \<open>Lock()\<close> first announces itself, then
  waits until no reader and no writer holds the mutex.
\<close>

record rwmutex =
  mux_readers :: nat
  mux_writer :: bool
  mux_pending :: nat

definition free_mutex :: rwmutex where
  "free_mutex = \<lparr>mux_readers = 0, mux_writer = False, mux_pending = 0\<rparr>"

definition RLock :: "rwmutex \<Rightarrow> rwmutex outcome" where
  "RLock m =
     (if mux_writer m \<or> 0 < mux_pending m then Blocked
      else Done (m\<lparr>mux_readers := mux_readers m + 1\<rparr>))"

definition RUnlock :: "rwmutex \<Rightarrow> rwmutex outcome" where
  "RUnlock m =
     (if mux_readers m = 0 then Panicked else Done (m\<lparr>mux_readers := mux_readers m - 1\<rparr>))"

definition Lock_call :: "rwmutex \<Rightarrow> rwmutex" where
  "Lock_call m = m\<lparr>mux_pending := mux_pending m + 1\<rparr>"

definition Lock_enter :: "rwmutex \<Rightarrow> rwmutex outcome" where
  "Lock_enter m =
     (if 0 < mux_pending m \<and> mux_readers m = 0 \<and> \<not> mux_writer m
      then Done (m\<lparr>mux_writer := True, mux_pending := mux_pending m - 1\<rparr>)
      else Blocked)"

definition Unlock :: "rwmutex \<Rightarrow> rwmutex outcome" where
  "Unlock m = (if mux_writer m then Done (m\<lparr>mux_writer := False\<rparr>) else Panicked)"

text \<open>
  \<open>conn()\<close> in the pieces between which it can wait. \<open>conn_sem\<close> is the part before
  \<open>usageTimeoutMux.RLock()\<close> on the path that does not wait for a token; it tells whether
  \<open>releaseLock\<close> was set. \<open>report\<close> is the send between \<open>blockChMux.RLock()\<close> and
  \<open>blockChMux.RUnlock()\<close>. The rest of \<open>conn()\<close> is \<open>conn_usage\<close>.
\<close>

definition conn_sem :: "DB \<Rightarrow> (DB \<times> bool) outcome" where
  "conn_sem db =
     (case sem db of
        None \<Rightarrow> Done (db, False)
      | Some ch \<Rightarrow>
          (case recv False ch of
             Some (_, ch') \<Rightarrow> Done (db\<lparr>sem := Some ch'\<rparr>, True)
           | None \<Rightarrow> Blocked))"

definition report :: "duration \<Rightarrow> DB \<Rightarrow> DB outcome" where
  "report d db =
     (case blockCh db of
        None \<Rightarrow> Done db
      | Some bc \<Rightarrow> bind_outcome (send d bc) (\<lambda>bc'. Done (db\<lparr>blockCh := Some bc'\<rparr>)))"

text \<open>
  A pool shared by goroutines, with its mutexes. Beside the state of the clients it
  holds, for the goroutines that are inside \<open>conn()\<close>: how many have received their token
  in the default case and are before \<open>blockChMux.RLock()\<close> (\<open>received\<close>); the readers of
  \<open>blockChMux\<close> are those at the send of the wait; and those that are at
  \<open>usageTimeoutMux.RLock()\<close>, each with whether it holds a token (\<open>at_usage\<close>). All of
  them that hold a token are counted in \<open>taking\<close>. \<open>expiring\<close> lists the timers whose
  goroutine holds \<open>usageTimeoutMux\<close> for reading, between its \<open>RLock()\<close> and its
  \<open>RUnlock()\<close>.
\<close>

record lsys =
  base :: sys
  blockChMux :: rwmutex
  usageTimeoutMux :: rwmutex
  received :: nat
  at_usage :: "bool list"
  expiring :: "nat list"

definition linit :: "DB \<Rightarrow> lsys" where
  "linit db =
     \<lparr>base = init db, blockChMux = free_mutex, usageTimeoutMux = free_mutex, received = 0,
      at_usage = [], expiring = []\<rparr>"

text \<open>
  The steps of a pool with its mutexes. The steps of a client that touch no mutex are
  those of \<open>step\<close>. The others are cut where a goroutine can wait: \<open>conn()\<close> at the
  receive of a token, at \<open>blockChMux.RLock()\<close>, at the send of the wait and at
  \<open>usageTimeoutMux.RLock()\<close>; the goroutine of a timer at its \<open>RLock()\<close> and at its send;
  a setter at its \<open>Lock()\<close>. Between \<open>Lock()\<close> and \<open>Unlock()\<close> a setter cannot wait, so
  that part is one step.
\<close>

fun takes_no_lock :: "action \<Rightarrow> bool" where
  "takes_no_lock (A_conn stack) = False"
| "takes_no_lock A_take = False"
| "takes_no_lock (A_report d stack) = False"
| "takes_no_lock (A_set_block c) = False"
| "takes_no_lock (A_set_usage c d) = False"
| "takes_no_lock (A_expire i) = False"
| "takes_no_lock (A_cancelled i) = False"
| "takes_no_lock a = True"

datatype laction =
    L_do action
  | L_conn_sem
  | L_take
  | L_report_begin
  | L_report_end duration
  | L_conn_usage nat string
  | L_expire_begin nat
  | L_expire_end nat
  | L_cancelled nat
  | L_set_usage_call
  | L_set_usage_run "string chan option" duration
  | L_set_block_call
  | L_set_block_run "duration chan option"

fun lstep :: "laction \<Rightarrow> lsys \<Rightarrow> lsys outcome" where
  "lstep (L_do a) t =
     (if takes_no_lock a then bind_outcome (step a (base t)) (\<lambda>s. Done (t\<lparr>base := s\<rparr>))
      else Blocked)"
| "lstep L_conn_sem t =
     bind_outcome (conn_sem (pool (base t))) (\<lambda>(db, l).
       Done (t\<lparr>base := (base t)\<lparr>pool := db,
                                   taking := taking (base t) + (if l then 1 else 0)\<rparr>,
               at_usage := at_usage t @ [l]\<rparr>))"
| "lstep L_take t =
     bind_outcome (conn_take (pool (base t))) (\<lambda>db.
       Done (t\<lparr>base := (base t)\<lparr>pool := db, taking := taking (base t) + 1\<rparr>,
               received := received t + 1\<rparr>))"
| "lstep L_report_begin t =
     (if received t = 0 then Blocked
      else bind_outcome (RLock (blockChMux t)) (\<lambda>m.
             Done (t\<lparr>blockChMux := m, received := received t - 1\<rparr>)))"
| "lstep (L_report_end d) t =
     (if mux_readers (blockChMux t) = 0 then Blocked
      else bind_outcome (report d (pool (base t))) (\<lambda>db.
           bind_outcome (RUnlock (blockChMux t)) (\<lambda>m.
             Done (t\<lparr>base := (base t)\<lparr>pool := db\<rparr>, blockChMux := m,
                     at_usage := at_usage t @ [True]\<rparr>))))"
| "lstep (L_conn_usage j stack) t =
     (if j < length (at_usage t) then
        bind_outcome (RLock (usageTimeoutMux t)) (\<lambda>m.
        bind_outcome (RUnlock m) (\<lambda>m'.
          (case conn_usage stack (at_usage t ! j) (pool (base t)) of
             (db, r) \<Rightarrow>
               Done (t\<lparr>base := (base t)\<lparr>pool := db,
                                           taking := taking (base t) - (if at_usage t ! j then 1 else 0),
                                           calls := calls (base t) @ [r]\<rparr>,
                       usageTimeoutMux := m',
                       at_usage := remove_nth j (at_usage t)\<rparr>))))
      else Blocked)"
| "lstep (L_expire_begin i) t =
     (if i < length (timers (pool (base t))) \<and> tm_running (timers (pool (base t)) ! i)
         \<and> i \<notin> set (expiring t)
      then bind_outcome (RLock (usageTimeoutMux t)) (\<lambda>m.
             Done (t\<lparr>usageTimeoutMux := m, expiring := expiring t @ [i]\<rparr>))
      else Blocked)"
| "lstep (L_expire_end i) t =
     (if i \<in> set (expiring t) then
        bind_outcome (timer_expire i (pool (base t))) (\<lambda>db.
        bind_outcome (RUnlock (usageTimeoutMux t)) (\<lambda>m.
          Done (t\<lparr>base := (base t)\<lparr>pool := db\<rparr>, usageTimeoutMux := m,
                  expiring := remove1 i (expiring t)\<rparr>)))
      else Blocked)"
| "lstep (L_cancelled i) t =
     (if i \<in> set (expiring t) then Blocked
      else bind_outcome (timer_cancelled i (pool (base t))) (\<lambda>db.
             Done (t\<lparr>base := (base t)\<lparr>pool := db\<rparr>\<rparr>)))"
| "lstep L_set_usage_call t = Done (t\<lparr>usageTimeoutMux := Lock_call (usageTimeoutMux t)\<rparr>)"
| "lstep (L_set_usage_run c d) t =
     bind_outcome (Lock_enter (usageTimeoutMux t)) (\<lambda>m.
     bind_outcome (Unlock m) (\<lambda>m'.
       Done (t\<lparr>base := (base t)\<lparr>pool := SetUsageTimeout c d (pool (base t))\<rparr>,
               usageTimeoutMux := m'\<rparr>)))"
| "lstep L_set_block_call t = Done (t\<lparr>blockChMux := Lock_call (blockChMux t)\<rparr>)"
| "lstep (L_set_block_run c) t =
     bind_outcome (Lock_enter (blockChMux t)) (\<lambda>m.
     bind_outcome (SetBlockDurationCh c (pool (base t))) (\<lambda>db.
     bind_outcome (Unlock m) (\<lambda>m'.
       Done (t\<lparr>base := (base t)\<lparr>pool := db\<rparr>, blockChMux := m'\<rparr>))))"

fun lexec :: "laction list \<Rightarrow> lsys \<Rightarrow> lsys outcome" where
  "lexec [] t = Done t"
| "lexec (a # as) t = bind_outcome (lstep a t) (lexec as)"

text \<open>
  The bookkeeping of a pool with its mutexes in good order: the goroutines inside
  \<open>conn()\<close> that hold a token are the ones counted in \<open>taking\<close>, the readers of
  \<open>usageTimeoutMux\<close> are the timers in \<open>expiring\<close>, and no step ends with a mutex held
  for writing.
\<close>

definition settled :: "lsys \<Rightarrow> bool" where
  "settled t =
     (taking (base t)
        = received t + mux_readers (blockChMux t)
          + sum_list (map (\<lambda>l. if l then 1 else 0) (at_usage t))
      \<and> mux_readers (usageTimeoutMux t) = length (expiring t)
      \<and> \<not> mux_writer (usageTimeoutMux t)
      \<and> \<not> mux_writer (blockChMux t))"

text \<open>The step in which \<open>SetBlockDurationCh\<close> replaces the channel.\<close>

fun replaces_blockCh :: "laction \<Rightarrow> bool" where
  "replaces_blockCh (L_set_block_run c) = True"
| "replaces_blockCh a = False"

subsection \<open>Two pools to compute with\<close>

text \<open>
  The pool that \<open>Open\<close> creates under \<open>SetConcurrency(1)\<close>, and the one it creates
  under the initial setting, both on a database/sql handle with two idle connections.
\<close>

definition pool_of_one :: DB where
  "pool_of_one =
     \<lparr>sqlDB = \<lparr>maxIdleConns = 1\<rparr>, maxConns = 1,
      sem = Some \<lparr>ch_cap = 1, ch_buf = [True], ch_closed = False\<rparr>,
      blockCh = None, usageTimeout = 0, usageTimeoutCh = None, timers = []\<rparr>"

definition unlimited_pool :: DB where
  "unlimited_pool =
     \<lparr>sqlDB = \<lparr>maxIdleConns = 2\<rparr>, maxConns = 0, sem = None,
      blockCh = None, usageTimeout = 0, usageTimeoutCh = None, timers = []\<rparr>"

text \<open>The first pool with its token taken, and the closure that holds that token.\<close>

definition taken_pool :: DB where
  "taken_pool = pool_of_one\<lparr>sem := Some \<lparr>ch_cap = 1, ch_buf = [], ch_closed = False\<rparr>\<rparr>"

definition held :: release where
  "held = \<lparr>rel_lock = True, rel_timer = None\<rparr>"

text \<open>
  The second pool after \<open>SetUsageTimeout(ch, 5)\<close> with a channel of capacity one; the
  same after one \<open>conn()\<close>; and after the closure of that \<open>conn()\<close> has run.
\<close>

definition watched_pool :: DB where
  "watched_pool = SetUsageTimeout (Some (make_chan 1)) 5 unlimited_pool"

definition armed_pool :: DB where
  "armed_pool =
     watched_pool\<lparr>timers :=
       [\<lparr>tm_after = 5, tm_stack = ''main'', tm_cancelCh = make_chan 1, tm_running = True\<rparr>]\<rparr>"

definition cancelled_pool :: DB where
  "cancelled_pool =
     watched_pool\<lparr>timers :=
       [\<lparr>tm_after = 5, tm_stack = ''main'',
         tm_cancelCh = \<lparr>ch_cap = 1, ch_buf = [()], ch_closed = True\<rparr>, tm_running = True\<rparr>]\<rparr>"

definition timer_release :: release where
  "timer_release = \<lparr>rel_lock = False, rel_timer = Some 0\<rparr>"

text \<open>
  A run on the second pool. \<open>SetUsageTimeout(ch, 5)\<close> is called with a channel that has
  no buffer and no reader; a \<open>conn()\<close> starts timer 0; the timer fires and its goroutine
  takes \<open>usageTimeoutMux\<close> for reading; a second \<open>SetUsageTimeout\<close> enters \<open>Lock()\<close>;
  a later \<open>conn()\<close> passes its first part. \<open>stuck\<close> is the state after the run.
\<close>

definition hung_run :: "laction list" where
  "hung_run =
     [L_set_usage_call, L_set_usage_run (Some (make_chan 0)) 5, L_conn_sem,
      L_conn_usage 0 ''main'', L_expire_begin 0, L_set_usage_call, L_conn_sem]"

definition stuck :: lsys where
  "stuck =
     \<lparr>base =
        \<lparr>pool = (SetUsageTimeout (Some (make_chan 0)) 5 unlimited_pool)
                  \<lparr>timers := [\<lparr>tm_after = 5, tm_stack = ''main'', tm_cancelCh = make_chan 1,
                                tm_running = True\<rparr>]\<rparr>,
         taking = 0, calls = [timer_release], cursors = [], singles = [], txs = []\<rparr>,
      blockChMux = free_mutex,
      usageTimeoutMux = \<lparr>mux_readers = 1, mux_writer = False, mux_pending = 1\<rparr>,
      received = 0, at_usage = [False], expiring = [0]\<rparr>"

text \<open>
  A shorter run: \<open>SetUsageTimeout(ch, 5)\<close> with a channel of capacity one, then the
  first part of a \<open>conn()\<close>; and the state after it.
\<close>

definition watched_run :: "laction list" where
  "watched_run = [L_set_usage_call, L_set_usage_run (Some (make_chan 1)) 5, L_conn_sem]"

definition watched :: lsys where
  "watched =
     \<lparr>base = \<lparr>pool = watched_pool, taking = 0, calls = [], cursors = [], singles = [],
               txs = []\<rparr>,
      blockChMux = free_mutex, usageTimeoutMux = free_mutex,
      received = 0, at_usage = [False], expiring = []\<rparr>"

section \<open>Properties\<close>

subsection \<open>Creation of a pool\<close>

lemma feed_fills:
  "i \<le> c \<Longrightarrow> \<not> ch_closed ch \<Longrightarrow> length (ch_buf ch) + nat (c - i) \<le> ch_cap ch \<Longrightarrow>
   feed i c ch = Done (ch\<lparr>ch_buf := ch_buf ch @ replicate (nat (c - i)) True\<rparr>)"
proof (induction i c ch rule: feed.induct)
  case (1 i c ch)
  show ?case
  proof (cases "i < c")
    case False
    with "1.prems" show ?thesis by simp
  next
    case True
    let ?ch' = "ch\<lparr>ch_buf := ch_buf ch @ [True]\<rparr>"
    from True "1.prems" have s: "send True ch = Done ?ch'"
      by (simp add: send_def)
    have n: "nat (c - i) = Suc (nat (c - (i + 1)))" using True by simp
    from "1.IH"[OF True s] True "1.prems"
    have "feed (i + 1) c ?ch' = Done (?ch'\<lparr>ch_buf := ch_buf ?ch' @ replicate (nat (c - (i + 1))) True\<rparr>)"
      by simp
    then show ?thesis
      using True s n by (simp add: replicate_app_Cons_same del: feed.simps add: feed.simps[of i c ch])
  qed
qed

lemma new_DB_bounded:
  "0 < c \<Longrightarrow>
   new_DB c sqldb =
     Done \<lparr>sqlDB = sqldb\<lparr>maxIdleConns := c\<rparr>, maxConns = c,
           sem = Some \<lparr>ch_cap = nat c, ch_buf = replicate (nat c) True, ch_closed = False\<rparr>,
           blockCh = None, usageTimeout = 0, usageTimeoutCh = None, timers = []\<rparr>"
  using feed_fills[of 0 c "make_chan (nat c)"]
  by (simp add: new_DB_def make_chan_def del: feed.simps)

lemma new_DB_unlimited:
  "c \<le> 0 \<Longrightarrow>
   new_DB c sqldb =
     Done \<lparr>sqlDB = sqldb, maxConns = 0, sem = None,
           blockCh = None, usageTimeout = 0, usageTimeoutCh = None, timers = []\<rparr>"
  by (simp add: new_DB_def)

subsection \<open>Acquisition followed by release\<close>

lemma run_release_dummy: "run_release dummyRelease db = Done db"
  by (simp add: run_release_def dummyRelease_def releaseLock_def cancelUsageTimeout_def)

lemma conn_usage_frame:
  "sem (fst (conn_usage stack l db)) = sem db"
  "blockCh (fst (conn_usage stack l db)) = blockCh db"
  "usageTimeout (fst (conn_usage stack l db)) = usageTimeout db"
  "usageTimeoutCh (fst (conn_usage stack l db)) = usageTimeoutCh db"
  "maxConns (fst (conn_usage stack l db)) = maxConns db"
  "sqlDB (fst (conn_usage stack l db)) = sqlDB db"
  "rel_lock (snd (conn_usage stack l db)) = l"
  by (simp_all add: conn_usage_def)

lemma available_frame: "sem db' = sem db \<Longrightarrow> available db' = available db"
  by (simp add: available_def)

lemma sem_ok_frame: "sem db' = sem db \<Longrightarrow> sem_ok db' = sem_ok db"
  by (simp add: sem_ok_def)

text \<open>
  Run on the pool as \<open>conn()\<close> left it, the closure gives the token back and leaves the
  timer it started cancelled: a value in the cancellation channel, and the channel closed.
\<close>

lemma release_after_usage:
  "run_release (snd (conn_usage stack l db)) (fst (conn_usage stack l db)) =
     bind_outcome (releaseLock l db) (\<lambda>db'. Done
       (if usageTimeout db \<noteq> 0 then
             db'\<lparr>timers := timers db @
                 [\<lparr>tm_after = usageTimeout db, tm_stack = stack,
                   tm_cancelCh = \<lparr>ch_cap = 1, ch_buf = [()], ch_closed = True\<rparr>, tm_running = True\<rparr>]\<rparr>
           else db'))"
  by (auto simp: run_release_def conn_usage_def releaseLock_def cancelUsageTimeout_def make_chan_def send_def close_chan_def
      split: option.splits)

lemma conn_eq_unlimited:
  "sem db = None \<Longrightarrow> conn stack db = Done (conn_usage stack False db)"
  by (simp add: conn_def)

lemma conn_eq_token:
  "sem db = Some ch \<Longrightarrow> ch_buf ch = t # ts \<Longrightarrow>
   conn stack db = Done (conn_usage stack True (db\<lparr>sem := Some (ch\<lparr>ch_buf := ts\<rparr>)\<rparr>))"
  by (simp add: conn_def recv_def)

lemma conn_eq_empty:
  "sem db = Some ch \<Longrightarrow> ch_buf ch = [] \<Longrightarrow> \<not> ch_closed ch \<Longrightarrow> conn stack db = Blocked"
  by (simp add: conn_def recv_def)

lemma conn_take_eq_token:
  "sem db = Some ch \<Longrightarrow> ch_buf ch = t # ts \<Longrightarrow>
   conn_take db = Done (db\<lparr>sem := Some (ch\<lparr>ch_buf := ts\<rparr>)\<rparr>)"
  by (simp add: conn_take_def recv_def)

lemma conn_take_eq_empty:
  "sem db = Some ch \<Longrightarrow> ch_buf ch = [] \<Longrightarrow> \<not> ch_closed ch \<Longrightarrow> conn_take db = Blocked"
  by (simp add: conn_take_def recv_def)

lemma conn_take_eq_unlimited: "sem db = None \<Longrightarrow> conn_take db = Blocked"
  by (simp add: conn_take_def)

lemma conn_report_Done:
  assumes a: "conn_report d stack db = Done (db1, r)"
  shows "\<exists>db'. sem db' = sem db \<and> usageTimeout db' = usageTimeout db \<and> timers db' = timers db
           \<and> usageTimeoutCh db' = usageTimeoutCh db \<and> maxConns db' = maxConns db
           \<and> (db1, r) = conn_usage stack True db'"
proof (cases "blockCh db")
  case None
  with a have "(db1, r) = conn_usage stack True db"
    by (simp add: conn_report_def)
  then show ?thesis by blast
next
  case (Some bc)
  show ?thesis
  proof (cases "send d bc")
    case (Done bc')
    with a Some have "(db1, r) = conn_usage stack True (db\<lparr>blockCh := Some bc'\<rparr>)"
      by (simp add: conn_report_def)
    moreover have "sem (db\<lparr>blockCh := Some bc'\<rparr>) = sem db" by simp
    moreover have "usageTimeout (db\<lparr>blockCh := Some bc'\<rparr>) = usageTimeout db" by simp
    moreover have "timers (db\<lparr>blockCh := Some bc'\<rparr>) = timers db" by simp
    moreover have "usageTimeoutCh (db\<lparr>blockCh := Some bc'\<rparr>) = usageTimeoutCh db" by simp
    moreover have "maxConns (db\<lparr>blockCh := Some bc'\<rparr>) = maxConns db" by simp
    ultimately show ?thesis by blast
  next
    case Blocked
    with a Some show ?thesis by (simp add: conn_report_def)
  next
    case Panicked
    with a Some show ?thesis by (simp add: conn_report_def)
  qed
qed

lemma release_taken:
  assumes "sem db' = Some (ch\<lparr>ch_buf := ts\<rparr>)" and "\<not> ch_closed ch" and "length ts < ch_cap ch"
  shows "\<exists>db2. run_release (snd (conn_usage stack True db')) (fst (conn_usage stack True db')) = Done db2
           \<and> sem db2 = Some (ch\<lparr>ch_buf := ts @ [True]\<rparr>)"
  using assms
  by (simp add: release_after_usage releaseLock_def send_def)


lemma conn_release:
  assumes ok: "sem_ok db" and g: "conn stack db = Done (db1, r)"
  shows "\<exists>db2. run_release r db1 = Done db2 \<and> available db2 = available db \<and> sem_ok db2"
proof (cases "sem db")
  case None
  with g have e: "db1 = fst (conn_usage stack False db)" "r = snd (conn_usage stack False db)"
    by (simp_all add: conn_eq_unlimited)
  show ?thesis unfolding e using None
    by (simp add: release_after_usage releaseLock_def available_def sem_ok_def)
next
  case (Some ch)
  from ok Some have c: "\<not> ch_closed ch" "length (ch_buf ch) \<le> ch_cap ch"
    by (simp_all add: sem_ok_def)
  show ?thesis
  proof (cases "ch_buf ch")
    case Nil
    with g Some c show ?thesis by (simp add: conn_eq_empty)
  next
    case (Cons t ts)
    let ?db' = "db\<lparr>sem := Some (ch\<lparr>ch_buf := ts\<rparr>)\<rparr>"
    from g Some Cons have e: "db1 = fst (conn_usage stack True ?db')" "r = snd (conn_usage stack True ?db')"
      by (simp_all add: conn_eq_token)
    have "sem ?db' = Some (ch\<lparr>ch_buf := ts\<rparr>)" by simp
    moreover from c Cons have "length ts < ch_cap ch" by simp
    ultimately obtain db2 where
      "run_release r db1 = Done db2" "sem db2 = Some (ch\<lparr>ch_buf := ts @ [True]\<rparr>)"
      unfolding e using release_taken c(1) by blast
    then show ?thesis using Some Cons c
      by (simp add: available_def sem_ok_def)
  qed
qed

lemma conn_unblock_release:
  assumes ok: "sem_ok db" and g: "conn_unblock d stack db = Done (db1, r)"
  shows "\<exists>db2. run_release r db1 = Done db2 \<and> available db2 = available db \<and> sem_ok db2"
proof (cases "sem db")
  case None
  with g show ?thesis by (simp add: conn_unblock_def conn_take_eq_unlimited)
next
  case (Some ch)
  from ok Some have c: "\<not> ch_closed ch" "length (ch_buf ch) \<le> ch_cap ch"
    by (simp_all add: sem_ok_def)
  show ?thesis
  proof (cases "ch_buf ch")
    case Nil
    with g Some c show ?thesis by (simp add: conn_unblock_def conn_take_eq_empty)
  next
    case (Cons t ts)
    let ?db' = "db\<lparr>sem := Some (ch\<lparr>ch_buf := ts\<rparr>)\<rparr>"
    from g Some Cons have "conn_report d stack ?db' = Done (db1, r)"
      by (simp add: conn_unblock_def conn_take_eq_token)
    from conn_report_Done[OF this] obtain db'' where
      s: "sem db'' = Some (ch\<lparr>ch_buf := ts\<rparr>)" and p: "(db1, r) = conn_usage stack True db''"
      by auto
    from p have e: "db1 = fst (conn_usage stack True db'')" "r = snd (conn_usage stack True db'')"
      by (metis fst_conv, metis snd_conv)
    from c Cons have "length ts < ch_cap ch" by simp
    with s obtain db2 where
      "run_release r db1 = Done db2" "sem db2 = Some (ch\<lparr>ch_buf := ts @ [True]\<rparr>)"
      unfolding e using release_taken c(1) by blast
    then show ?thesis using Some Cons c
      by (simp add: available_def sem_ok_def)
  qed
qed

lemma conn_ready:
  assumes "sem_ok db" and "sem db = None \<or> 0 < available db"
  shows "\<exists>db1 r. conn stack db = Done (db1, r)"
proof (cases "sem db")
  case None
  then show ?thesis by (metis conn_eq_unlimited surj_pair)
next
  case (Some ch)
  with assms(2) obtain t ts where "ch_buf ch = t # ts"
    by (cases "ch_buf ch") (simp_all add: available_def)
  with Some show ?thesis by (metis conn_eq_token surj_pair)
qed

lemma new_DB_pool_of_one: "new_DB 1 \<lparr>maxIdleConns = 2\<rparr> = Done pool_of_one"
  by (simp add: new_DB_bounded pool_of_one_def)

lemma new_DB_unlimited_pool: "new_DB 0 \<lparr>maxIdleConns = 2\<rparr> = Done unlimited_pool"
  by (simp add: new_DB_unlimited unlimited_pool_def)

subsection \<open>A failed call leaks no token\<close>

lemma Query_finish_error:
  "run_release r db = Done db' \<Longrightarrow> Query_finish r (rows, Some e) db = Done (db', None, Some e)"
  by (simp add: Query_finish_def)

lemma Begin_finish_error:
  "run_release r db = Done db' \<Longrightarrow> Begin_finish r (Inl e) db = Done (db', None, Some e)"
  by (simp add: Begin_finish_def)

lemma fast_path_error:
  assumes ok: "sem_ok db" and rdy: "sem db = None \<or> 0 < available db"
  shows "\<exists>db'. Query stack (rows, Some e) db = Done (db', None, Some e) \<and> available db' = available db"
    and "\<exists>db'. Begin stack (Inl e) db = Done (db', None, Some e) \<and> available db' = available db"
proof -
  from conn_ready[OF ok rdy] obtain db1 r where g: "conn stack db = Done (db1, r)" by blast
  from conn_release[OF ok g] obtain db2 where
    r: "run_release r db1 = Done db2" "available db2 = available db" by blast
  show "\<exists>db'. Query stack (rows, Some e) db = Done (db', None, Some e) \<and> available db' = available db"
    using g r by (simp add: Query_def Query_finish_error)
  show "\<exists>db'. Begin stack (Inl e) db = Done (db', None, Some e) \<and> available db' = available db"
    using g r by (simp add: Begin_def Begin_finish_error)
qed

lemma Stmt_Query_error:
  assumes ok: "sem_ok db" and rdy: "sem db = None \<or> 0 < available db"
  shows "\<exists>db'. Stmt_Query stack s (rows, Some e) db = Done (db', None, Some e) \<and> available db' = available db"
proof (cases "Stmt_db s = Nil_db")
  case True
  then show ?thesis
    by (simp add: Stmt_Query_def Query_finish_error run_release_dummy)
next
  case False
  from conn_ready[OF ok rdy] obtain db1 r where g: "conn stack db = Done (db1, r)" by blast
  from conn_release[OF ok g] obtain db2 where
    r: "run_release r db1 = Done db2" "available db2 = available db" by blast
  show ?thesis using False g r by (simp add: Stmt_Query_def Query_finish_error)
qed

text \<open>
  C1. When the underlying call of \<open>DB.Query\<close>, \<open>DB.Begin\<close> or \<open>Stmt.Query\<close> returns an
  error, the wrapper returns that error with no handle, and the pool it leaves has as many
  tokens as the pool it was called on: the token taken by \<open>conn()\<close> is back before the
  caller sees the error. This holds when \<open>conn()\<close> finds a token at once (or the pool is
  unlimited), and also when the call had to wait and resumes in the state \<open>db\<close>.
\<close>

theorem failed_call_returns_token:
  assumes "sem_ok db"
  shows "(sem db = None \<or> 0 < available db \<longrightarrow>
           (\<exists>db'. Query stack (rows, Some e) db = Done (db', None, Some e)
                  \<and> available db' = available db)
         \<and> (\<exists>db'. Begin stack (Inl e) db = Done (db', None, Some e)
                  \<and> available db' = available db)
         \<and> (\<exists>db'. Stmt_Query stack s (rows, Some e) db = Done (db', None, Some e)
                  \<and> available db' = available db))
       \<and> (conn_unblock d stack db = Done (db1, r) \<longrightarrow>
           (\<exists>db'. Query_finish r (rows, Some e) db1 = Done (db', None, Some e)
                  \<and> available db' = available db)
         \<and> (\<exists>db'. Begin_finish r (Inl e) db1 = Done (db', None, Some e)
                  \<and> available db' = available db))"
proof (intro conjI impI)
  assume rdy: "sem db = None \<or> 0 < available db"
  show "\<exists>db'. Query stack (rows, Some e) db = Done (db', None, Some e) \<and> available db' = available db"
    by (rule fast_path_error(1)[OF assms rdy])
  show "\<exists>db'. Begin stack (Inl e) db = Done (db', None, Some e) \<and> available db' = available db"
    by (rule fast_path_error(2)[OF assms rdy])
  show "\<exists>db'. Stmt_Query stack s (rows, Some e) db = Done (db', None, Some e) \<and> available db' = available db"
    by (rule Stmt_Query_error[OF assms rdy])
next
  assume g: "conn_unblock d stack db = Done (db1, r)"
  from conn_unblock_release[OF assms g] obtain db2 where
    r: "run_release r db1 = Done db2" "available db2 = available db" by blast
  show "\<exists>db'. Query_finish r (rows, Some e) db1 = Done (db', None, Some e) \<and> available db' = available db"
    using r by (simp add: Query_finish_error)
  show "\<exists>db'. Begin_finish r (Inl e) db1 = Done (db', None, Some e) \<and> available db' = available db"
    using r by (simp add: Begin_finish_error)
qed

theorem failed_call_returns_token_witness:
  "sem_ok pool_of_one \<and> 0 < available pool_of_one
   \<and> (\<exists>db'. Query ''main'' (None, Some ''bad query'') pool_of_one = Done (db', None, Some ''bad query'')
          \<and> available db' = 1)
   \<and> (\<exists>db'. Begin ''main'' (Inl ''refused'') pool_of_one = Done (db', None, Some ''refused'')
          \<and> available db' = 1)
   \<and> (\<exists>db'. Stmt_Query ''main'' \<lparr>Stmt_stmt = ''select 1'', Stmt_db = This_db\<rparr>
              (None, Some ''bad query'') pool_of_one = Done (db', None, Some ''bad query'')
          \<and> available db' = 1)
   \<and> conn_unblock 7 ''main'' pool_of_one
       = Done (pool_of_one\<lparr>sem := Some \<lparr>ch_cap = 1, ch_buf = [], ch_closed = False\<rparr>\<rparr>,
               \<lparr>rel_lock = True, rel_timer = None\<rparr>)
   \<and> (\<exists>db'. Query_finish \<lparr>rel_lock = True, rel_timer = None\<rparr> (None, Some ''bad query'')
              (pool_of_one\<lparr>sem := Some \<lparr>ch_cap = 1, ch_buf = [], ch_closed = False\<rparr>\<rparr>)
            = Done (db', None, Some ''bad query'') \<and> available db' = 1)"
proof -
  have ok: "sem_ok pool_of_one" by (simp add: sem_ok_def pool_of_one_def)
  have av: "available pool_of_one = 1" by (simp add: available_def pool_of_one_def)
  have ub: "conn_unblock 7 ''main'' pool_of_one
       = Done (pool_of_one\<lparr>sem := Some \<lparr>ch_cap = 1, ch_buf = [], ch_closed = False\<rparr>\<rparr>,
               \<lparr>rel_lock = True, rel_timer = None\<rparr>)"
    by (simp add: conn_unblock_def conn_take_def conn_report_def conn_usage_def recv_def pool_of_one_def)
  show ?thesis
    using failed_call_returns_token[OF ok, of "''main''" None "''bad query''"
        "\<lparr>Stmt_stmt = ''select 1'', Stmt_db = This_db\<rparr>" 7
        "pool_of_one\<lparr>sem := Some \<lparr>ch_cap = 1, ch_buf = [], ch_closed = False\<rparr>\<rparr>"
        "\<lparr>rel_lock = True, rel_timer = None\<rparr>"]
      failed_call_returns_token[OF ok, of "''main''" None "''refused''"]
      ok av ub
    by simp
qed

subsection \<open>What \<open>conn()\<close> takes\<close>

lemma conn_takes_one:
  assumes ok: "sem_ok db" and g: "conn stack db = Done (db1, r)"
  shows "available db1 + (if sem db = None then 0 else 1) = available db"
    and "rel_lock r = (sem db \<noteq> None)"
    and "(sem db1 = None) = (sem db = None)"
proof -
  have "available db1 + (if sem db = None then 0 else 1) = available db
        \<and> rel_lock r = (sem db \<noteq> None) \<and> (sem db1 = None) = (sem db = None)"
  proof (cases "sem db")
    case None
    with g have e: "db1 = fst (conn_usage stack False db)" "r = snd (conn_usage stack False db)"
      by (simp_all add: conn_eq_unlimited)
    show ?thesis unfolding e using None by (simp add: conn_usage_frame available_def)
  next
    case (Some ch)
    from ok Some have c: "\<not> ch_closed ch" by (simp add: sem_ok_def)
    show ?thesis
    proof (cases "ch_buf ch")
      case Nil
      with g Some c show ?thesis by (simp add: conn_eq_empty)
    next
      case (Cons t ts)
      let ?db' = "db\<lparr>sem := Some (ch\<lparr>ch_buf := ts\<rparr>)\<rparr>"
      from g Some Cons have e: "db1 = fst (conn_usage stack True ?db')" "r = snd (conn_usage stack True ?db')"
        by (simp_all add: conn_eq_token)
      show ?thesis unfolding e using Some Cons by (simp add: conn_usage_frame available_def)
    qed
  qed
  then show "available db1 + (if sem db = None then 0 else 1) = available db"
    and "rel_lock r = (sem db \<noteq> None)"
    and "(sem db1 = None) = (sem db = None)" by simp_all
qed

subsection \<open>Transactions\<close>

lemma Begin_success:
  assumes "Begin stack (Inr h) db = Done (db1, Some tx, None)"
  shows "\<exists>r. conn stack db = Done (db1, r) \<and> tx = \<lparr>Tx_trn = h, Tx_closed = False, Tx_release = r\<rparr>"
proof (cases "conn stack db")
  case (Done x)
  obtain d r where x: "x = (d, r)" by (cases x)
  with assms Done show ?thesis by (simp add: Begin_def Begin_finish_def)
next
  case Blocked
  with assms show ?thesis by (simp add: Begin_def)
next
  case Panicked
  with assms show ?thesis by (simp add: Begin_def)
qed

lemma Tx_closed_calls:
  "Tx_closed t \<Longrightarrow>
   Tx_Commit t e d = Done (t\<lparr>Tx_trn := Tx_trn t @ [Call_Commit]\<rparr>, d, e) \<and>
   Tx_Rollback t e d = Done (t\<lparr>Tx_trn := Tx_trn t @ [Call_Rollback]\<rparr>, d, e)"
  by (simp add: Tx_Commit_def Tx_Rollback_def)

lemma Tx_open_calls:
  "\<not> Tx_closed t \<Longrightarrow> run_release (Tx_release t) d = Done d' \<Longrightarrow>
   Tx_Commit t e d = Done (t\<lparr>Tx_trn := Tx_trn t @ [Call_Commit], Tx_closed := True\<rparr>, d', e) \<and>
   Tx_Rollback t e d = Done (t\<lparr>Tx_trn := Tx_trn t @ [Call_Rollback], Tx_closed := True\<rparr>, d', e)"
  by (simp add: Tx_Commit_def Tx_Rollback_def)

lemma Tx_calls_closed:
  "Tx_closed t \<Longrightarrow>
   Tx_calls cs t d = Done (t\<lparr>Tx_trn := Tx_trn t @ map underlying_call cs\<rparr>, d)"
proof (induction cs arbitrary: t)
  case Nil
  then show ?case by simp
next
  case (Cons c cs)
  show ?case
  proof (cases c)
    case (Commit e)
    with Cons show ?thesis by (simp add: Tx_closed_calls)
  next
    case (Rollback e)
    with Cons show ?thesis by (simp add: Tx_closed_calls)
  qed
qed

lemma Tx_calls_open:
  assumes "\<not> Tx_closed t" and "run_release (Tx_release t) d = Done d'"
  shows "Tx_calls (c # cs) t d =
           Done (t\<lparr>Tx_trn := Tx_trn t @ map underlying_call (c # cs), Tx_closed := True\<rparr>, d')"
proof (cases c)
  case (Commit e)
  with assms show ?thesis by (simp add: Tx_open_calls Tx_calls_closed)
next
  case (Rollback e)
  with assms show ?thesis by (simp add: Tx_open_calls Tx_calls_closed)
qed

text \<open>
  C4. A transaction as \<open>Begin\<close> returns it holds the token of its \<open>conn()\<close>. The first
  \<open>Commit\<close> or \<open>Rollback\<close> gives it back; whatever calls follow, the pool stays as that
  first call left it, and every call, the first and the later ones, reaches the underlying
  transaction. On a closed transaction \<open>Commit\<close> and \<open>Rollback\<close> leave any pool as it is.
\<close>

theorem Tx_releases_at_first_end_only:
  assumes "sem_ok db" and "Begin stack (Inr h) db = Done (db1, Some tx, None)"
  shows "available db1 + (if sem db = None then 0 else 1) = available db
       \<and> (\<exists>db2. available db2 = available db
            \<and> (\<forall>cs. Tx_calls (c # cs) tx db1 =
                  Done (\<lparr>Tx_trn = h @ map underlying_call (c # cs), Tx_closed = True,
                         Tx_release = Tx_release tx\<rparr>, db2)))
       \<and> (\<forall>t e d. Tx_closed t \<longrightarrow>
             Tx_Commit t e d = Done (t\<lparr>Tx_trn := Tx_trn t @ [Call_Commit]\<rparr>, d, e)
           \<and> Tx_Rollback t e d = Done (t\<lparr>Tx_trn := Tx_trn t @ [Call_Rollback]\<rparr>, d, e))"
proof -
  from Begin_success[OF assms(2)] obtain r where
    g: "conn stack db = Done (db1, r)" and
    tx: "tx = \<lparr>Tx_trn = h, Tx_closed = False, Tx_release = r\<rparr>" by blast
  from conn_release[OF assms(1) g] obtain db2 where
    r: "run_release r db1 = Done db2" "available db2 = available db" by blast
  have "\<forall>cs. Tx_calls (c # cs) tx db1 =
          Done (\<lparr>Tx_trn = h @ map underlying_call (c # cs), Tx_closed = True,
                 Tx_release = Tx_release tx\<rparr>, db2)"
  proof
    fix cs
    have "\<not> Tx_closed tx" "run_release (Tx_release tx) db1 = Done db2"
      using tx r by simp_all
    from Tx_calls_open[OF this, of c cs] show "Tx_calls (c # cs) tx db1 =
          Done (\<lparr>Tx_trn = h @ map underlying_call (c # cs), Tx_closed = True,
                 Tx_release = Tx_release tx\<rparr>, db2)"
      using tx by simp
  qed
  with r(2) conn_takes_one(1)[OF assms(1) g] show ?thesis
    by (simp add: Tx_closed_calls)
qed

lemma pool_of_one_ok: "sem_ok pool_of_one"
  by (simp add: sem_ok_def pool_of_one_def)

lemma conn_pool_of_one: "conn stack pool_of_one = Done (taken_pool, held)"
  by (simp add: conn_def recv_def conn_usage_def pool_of_one_def taken_pool_def held_def)

lemma release_held: "run_release held taken_pool = Done pool_of_one"
  by (simp add: run_release_def releaseLock_def cancelUsageTimeout_def send_def
      pool_of_one_def taken_pool_def held_def)

lemma available_examples: "available pool_of_one = 1" "available taken_pool = 0"
  by (simp_all add: available_def pool_of_one_def taken_pool_def)

theorem Tx_releases_at_first_end_only_witness:
  "sem_ok pool_of_one
   \<and> Begin ''main'' (Inr []) pool_of_one
       = Done (taken_pool, Some \<lparr>Tx_trn = [], Tx_closed = False, Tx_release = held\<rparr>, None)
   \<and> available taken_pool + 1 = available pool_of_one
   \<and> (\<exists>db2. available db2 = 1
        \<and> (\<forall>cs. Tx_calls (Commit None # cs) \<lparr>Tx_trn = [], Tx_closed = False, Tx_release = held\<rparr> taken_pool =
              Done (\<lparr>Tx_trn = Call_Commit # map underlying_call cs, Tx_closed = True,
                     Tx_release = held\<rparr>, db2)))"
proof -
  have b: "Begin ''main'' (Inr []) pool_of_one
       = Done (taken_pool, Some \<lparr>Tx_trn = [], Tx_closed = False, Tx_release = held\<rparr>, None)"
    by (simp add: Begin_def Begin_finish_def conn_pool_of_one)
  have s: "sem pool_of_one \<noteq> None" by (simp add: pool_of_one_def)
  show ?thesis
    using Tx_releases_at_first_end_only[OF pool_of_one_ok b, of "Commit None"] b s
      pool_of_one_ok available_examples
    by simp
qed

text \<open>
  C10. \<open>Tx.Query\<close> returns a cursor shim in every case: it wraps whatever the underlying
  query returned, its release does nothing, and the error comes back as it was. \<open>DB.Query\<close>
  returns no cursor when the underlying query fails, and the same error.
\<close>

theorem Tx_Query_shim_with_error:
  "snd (Tx_Query tx (rows, err))
     = (Some \<lparr>Rows_sql = rows, Rows_closed = False, Rows_release = dummyRelease\<rparr>, err)
   \<and> run_release dummyRelease db = Done db
   \<and> (Query stack (rows, Some e) db = Done (db', c, e') \<longrightarrow> c = None \<and> e' = Some e)"
proof (intro conjI impI)
  show "snd (Tx_Query tx (rows, err))
     = (Some \<lparr>Rows_sql = rows, Rows_closed = False, Rows_release = dummyRelease\<rparr>, err)"
    by (simp add: Tx_Query_def)
  show "run_release dummyRelease db = Done db" by (rule run_release_dummy)
next
  assume q: "Query stack (rows, Some e) db = Done (db', c, e')"
  show "c = None" "e' = Some e"
  proof -
    have "c = None \<and> e' = Some e"
    proof (cases "conn stack db")
      case (Done x)
      obtain d r where x: "x = (d, r)" by (cases x)
      show ?thesis
      proof (cases "run_release r d")
        case (Done d')
        with q x \<open>conn stack db = Done x\<close> show ?thesis
          by (simp add: Query_def Query_finish_def)
      next
        case Blocked
        with q x \<open>conn stack db = Done x\<close> show ?thesis
          by (simp add: Query_def Query_finish_def)
      next
        case Panicked
        with q x \<open>conn stack db = Done x\<close> show ?thesis
          by (simp add: Query_def Query_finish_def)
      qed
    next
      case Blocked
      with q show ?thesis by (simp add: Query_def)
    next
      case Panicked
      with q show ?thesis by (simp add: Query_def)
    qed
    then show "c = None" "e' = Some e" by simp_all
  qed
qed

theorem Tx_Query_shim_with_error_witness:
  "Query ''main'' (None, Some ''bad query'') pool_of_one = Done (pool_of_one, None, Some ''bad query'')
   \<and> snd (Tx_Query \<lparr>Tx_trn = [], Tx_closed = False, Tx_release = held\<rparr> (None, Some ''bad query''))
       = (Some \<lparr>Rows_sql = None, Rows_closed = False, Rows_release = dummyRelease\<rparr>, Some ''bad query'')"
proof -
  have q: "Query ''main'' (None, Some ''bad query'') pool_of_one
             = Done (pool_of_one, None, Some ''bad query'')"
    by (simp add: Query_def Query_finish_def conn_pool_of_one release_held)
  show ?thesis
    using Tx_Query_shim_with_error[of "\<lparr>Tx_trn = [], Tx_closed = False, Tx_release = held\<rparr>"
        None "Some ''bad query''" pool_of_one "''main''" "''bad query''" pool_of_one None
        "Some ''bad query''"] q
    by simp
qed

subsection \<open>Cursors\<close>

lemma closes_append [simp]: "closes (h @ h') = closes h + closes h'"
  by (simp add: closes_def)

lemma closes_simps [simp]:
  "closes [] = 0" "closes [Call_Close] = 1" "closes [Call_Next] = 0"
  "closes [Call_Next, Call_Err] = 0"
  by (simp_all add: closes_def)

lemma Query_success:
  assumes "Query stack (Some h, None) db = Done (db1, Some rows, None)"
  shows "\<exists>r. conn stack db = Done (db1, r)
           \<and> rows = \<lparr>Rows_sql = Some h, Rows_closed = False, Rows_release = r\<rparr>"
proof (cases "conn stack db")
  case (Done x)
  obtain d r where x: "x = (d, r)" by (cases x)
  with assms Done show ?thesis by (simp add: Query_def Query_finish_def)
next
  case Blocked
  with assms show ?thesis by (simp add: Query_def)
next
  case Panicked
  with assms show ?thesis by (simp add: Query_def)
qed

lemma Rows_closed_calls:
  assumes "Rows_closed c" and "Rows_sql c = Some h"
  shows "Rows_Next c nxt err d = Done (c, d, False)"
    and "Rows_Close c e d = Done (c\<lparr>Rows_sql := Some (h @ [Call_Close])\<rparr>, d, e)"
  using assms by (simp_all add: Rows_Next_def Rows_Close_def)

lemma Rows_calls_closed:
  "Rows_closed c \<Longrightarrow> Rows_sql c = Some h \<Longrightarrow>
   \<exists>h'. Rows_calls cs c d = Done (c\<lparr>Rows_sql := Some h'\<rparr>, d)
        \<and> closes h' = closes h + length (filter is_Close cs)"
proof (induction cs arbitrary: c h)
  case Nil
  then have "c\<lparr>Rows_sql := Some h\<rparr> = c" by simp
  then show ?case by (metis Rows_calls.simps(1) add.right_neutral filter.simps(1) list.size(3))
next
  case (Cons a cs)
  show ?case
  proof (cases a)
    case (Next nxt err)
    from Cons.IH[OF Cons.prems] obtain h' where
      "Rows_calls cs c d = Done (c\<lparr>Rows_sql := Some h'\<rparr>, d)"
      "closes h' = closes h + length (filter is_Close cs)" by blast
    with Next Cons.prems show ?thesis
      by (auto simp: Rows_closed_calls intro!: exI[of _ h'])
  next
    case (Close e)
    let ?c = "c\<lparr>Rows_sql := Some (h @ [Call_Close])\<rparr>"
    have "Rows_closed ?c" "Rows_sql ?c = Some (h @ [Call_Close])"
      using Cons.prems by simp_all
    from Cons.IH[OF this] obtain h' where
      "Rows_calls cs ?c d = Done (?c\<lparr>Rows_sql := Some h'\<rparr>, d)"
      "closes h' = closes (h @ [Call_Close]) + length (filter is_Close cs)" by blast
    with Close Cons.prems show ?thesis
      by (auto simp: Rows_closed_calls intro!: exI[of _ h'])
  qed
qed

lemma Rows_calls_open:
  "\<not> Rows_closed c \<Longrightarrow> Rows_sql c = Some h \<Longrightarrow> run_release (Rows_release c) d = Done d' \<Longrightarrow>
   \<exists>c' h'. Rows_calls cs c d = Done (c', if list_ex ends_cursor cs then d' else d)
        \<and> Rows_closed c' = list_ex ends_cursor cs
        \<and> Rows_sql c' = Some h'
        \<and> closes h' = closes h + length (filter is_Close cs)"
proof (induction cs arbitrary: c h)
  case Nil
  then show ?case by simp
next
  case (Cons a cs)
  show ?case
  proof (cases a)
    case (Close e)
    let ?c = "c\<lparr>Rows_sql := Some (h @ [Call_Close]), Rows_closed := True\<rparr>"
    have 1: "Rows_Close c e d = Done (?c, d', e)"
      using Cons.prems by (simp add: Rows_Close_def)
    have "Rows_closed ?c" "Rows_sql ?c = Some (h @ [Call_Close])" by simp_all
    from Rows_calls_closed[OF this, of cs d'] obtain h' where
      "Rows_calls cs ?c d' = Done (?c\<lparr>Rows_sql := Some h'\<rparr>, d')"
      "closes h' = closes (h @ [Call_Close]) + length (filter is_Close cs)" by blast
    with Close 1 show ?thesis by simp
  next
    case (Next nxt err)
    show ?thesis
    proof (cases "\<not> nxt \<and> err = None")
      case True
      let ?c = "c\<lparr>Rows_sql := Some (h @ [Call_Next, Call_Err]), Rows_closed := True\<rparr>"
      have 1: "Rows_Next c nxt err d = Done (?c, d', nxt)"
        using Cons.prems True by (simp add: Rows_Next_def)
      have "Rows_closed ?c" "Rows_sql ?c = Some (h @ [Call_Next, Call_Err])" by simp_all
      from Rows_calls_closed[OF this, of cs d'] obtain h' where
        "Rows_calls cs ?c d' = Done (?c\<lparr>Rows_sql := Some h'\<rparr>, d')"
        "closes h' = closes (h @ [Call_Next, Call_Err]) + length (filter is_Close cs)" by blast
      with Next 1 True show ?thesis by simp
    next
      case False
      let ?h = "h @ (if nxt then [Call_Next] else [Call_Next, Call_Err])"
      let ?c = "c\<lparr>Rows_sql := Some ?h\<rparr>"
      have 1: "Rows_Next c nxt err d = Done (?c, d, nxt)"
        using Cons.prems False by (auto simp: Rows_Next_def)
      have "\<not> Rows_closed ?c" "Rows_sql ?c = Some ?h" "run_release (Rows_release ?c) d = Done d'"
        using Cons.prems by simp_all
      from Cons.IH[OF this] obtain c' h' where
        "Rows_calls cs ?c d = Done (c', if list_ex ends_cursor cs then d' else d)"
        "Rows_closed c' = list_ex ends_cursor cs" "Rows_sql c' = Some h'"
        "closes h' = closes ?h + length (filter is_Close cs)" by blast
      with Next 1 False show ?thesis by auto
    qed
  qed
qed

text \<open>
  C3. A cursor as \<open>Query\<close> returns it holds the token of its \<open>conn()\<close>. Whatever calls
  of \<open>Next\<close> and \<open>Close\<close> follow, the token is given back by the first call that ends the
  cursor (\<open>Next\<close> at the end of the results with no error, or \<open>Close\<close>) and the pool then
  stays as that call left it: no second release. \<open>Next\<close> at the end of the results
  releases within that call and sets the closed flag; a \<open>Close\<close> after it leaves any pool
  untouched and still calls the underlying \<open>Close\<close>, as every \<open>Close\<close> does.
\<close>

theorem cursor_releases_once:
  assumes "sem_ok db" and "Query stack (Some h, None) db = Done (db1, Some rows, None)"
  shows "available db1 + (if sem db = None then 0 else 1) = available db
       \<and> (\<exists>db2. available db2 = available db
            \<and> (\<forall>cs. \<exists>rows' h'.
                  Rows_calls cs rows db1 = Done (rows', if list_ex ends_cursor cs then db2 else db1)
                  \<and> Rows_closed rows' = list_ex ends_cursor cs
                  \<and> Rows_sql rows' = Some h'
                  \<and> closes h' = closes h + length (filter is_Close cs))
            \<and> (\<exists>rows1. Rows_Next rows False None db1 = Done (rows1, db2, False)
                  \<and> Rows_closed rows1
                  \<and> (\<forall>e d. Rows_Close rows1 e d =
                        Done (rows1\<lparr>Rows_sql := Some (h @ [Call_Next, Call_Err, Call_Close])\<rparr>, d, e))))"
proof -
  from Query_success[OF assms(2)] obtain r where
    g: "conn stack db = Done (db1, r)" and
    rows: "rows = \<lparr>Rows_sql = Some h, Rows_closed = False, Rows_release = r\<rparr>" by blast
  from conn_release[OF assms(1) g] obtain db2 where
    r: "run_release r db1 = Done db2" "available db2 = available db" by blast
  have o: "\<not> Rows_closed rows" "Rows_sql rows = Some h" "run_release (Rows_release rows) db1 = Done db2"
    using rows r by simp_all
  have seq: "\<forall>cs. \<exists>rows' h'.
                  Rows_calls cs rows db1 = Done (rows', if list_ex ends_cursor cs then db2 else db1)
                  \<and> Rows_closed rows' = list_ex ends_cursor cs
                  \<and> Rows_sql rows' = Some h'
                  \<and> closes h' = closes h + length (filter is_Close cs)"
    using Rows_calls_open[OF o] by blast
  let ?rows1 = "rows\<lparr>Rows_sql := Some (h @ [Call_Next, Call_Err]), Rows_closed := True\<rparr>"
  have n: "Rows_Next rows False None db1 = Done (?rows1, db2, False)"
    using o by (simp add: Rows_Next_def)
  have c: "\<forall>e d. Rows_Close ?rows1 e d =
              Done (?rows1\<lparr>Rows_sql := Some (h @ [Call_Next, Call_Err, Call_Close])\<rparr>, d, e)"
    by (simp add: Rows_Close_def)
  have "\<exists>rows1. Rows_Next rows False None db1 = Done (rows1, db2, False)
                  \<and> Rows_closed rows1
                  \<and> (\<forall>e d. Rows_Close rows1 e d =
                        Done (rows1\<lparr>Rows_sql := Some (h @ [Call_Next, Call_Err, Call_Close])\<rparr>, d, e))"
    using n c by (intro exI[of _ ?rows1]) simp
  with seq r(2) conn_takes_one(1)[OF assms(1) g] show ?thesis by blast
qed

theorem cursor_releases_once_witness:
  "sem_ok pool_of_one
   \<and> Query ''main'' (Some [], None) pool_of_one
       = Done (taken_pool, Some \<lparr>Rows_sql = Some [], Rows_closed = False, Rows_release = held\<rparr>, None)
   \<and> available taken_pool + (if sem pool_of_one = None then 0 else 1) = available pool_of_one
   \<and> Rows_calls [Next True None, Next False None, Close None]
        \<lparr>Rows_sql = Some [], Rows_closed = False, Rows_release = held\<rparr> taken_pool
       = Done (\<lparr>Rows_sql = Some [Call_Next, Call_Next, Call_Err, Call_Close], Rows_closed = True,
                 Rows_release = held\<rparr>, pool_of_one)"
proof -
  have q: "Query ''main'' (Some [], None) pool_of_one
       = Done (taken_pool, Some \<lparr>Rows_sql = Some [], Rows_closed = False, Rows_release = held\<rparr>, None)"
    by (simp add: Query_def Query_finish_def conn_pool_of_one)
  have run: "Rows_calls [Next True None, Next False None, Close None]
        \<lparr>Rows_sql = Some [], Rows_closed = False, Rows_release = held\<rparr> taken_pool
       = Done (\<lparr>Rows_sql = Some [Call_Next, Call_Next, Call_Err, Call_Close], Rows_closed = True,
                 Rows_release = held\<rparr>, pool_of_one)"
    by (simp add: Rows_Next_def Rows_Close_def release_held)
  from cursor_releases_once[OF pool_of_one_ok q]
  have "available taken_pool + (if sem pool_of_one = None then 0 else 1) = available pool_of_one"
    by (rule conjunct1)
  with q run pool_of_one_ok show ?thesis by simp
qed

subsection \<open>Single rows\<close>

lemma QueryRow_Done:
  assumes "QueryRow stack sr db = Done (db1, row)"
  shows "\<exists>r. conn stack db = Done (db1, r)
           \<and> row = \<lparr>Row_sql = sr, Row_closed = False, Row_release = r\<rparr>"
proof (cases "conn stack db")
  case (Done x)
  obtain d r where x: "x = (d, r)" by (cases x)
  with assms Done show ?thesis by (simp add: QueryRow_def QueryRow_finish_def)
next
  case Blocked
  with assms show ?thesis by (simp add: QueryRow_def)
next
  case Panicked
  with assms show ?thesis by (simp add: QueryRow_def)
qed

lemma Row_closed_Scan:
  "Row_closed r \<Longrightarrow>
   Row_Scan r decoded d =
     Done (r\<lparr>Row_sql := fst (sql_Row_Scan (Row_sql r) decoded)\<rparr>, d,
           snd (sql_Row_Scan (Row_sql r) decoded))"
  by (simp add: Row_Scan_def split_beta)

lemma Row_open_Scan:
  "\<not> Row_closed r \<Longrightarrow> run_release (Row_release r) d = Done d' \<Longrightarrow>
   Row_Scan r decoded d =
     Done (r\<lparr>Row_sql := fst (sql_Row_Scan (Row_sql r) decoded), Row_closed := True\<rparr>, d',
           snd (sql_Row_Scan (Row_sql r) decoded))"
  by (simp add: Row_Scan_def split_beta)

lemma Row_scans_closed:
  "Row_closed r \<Longrightarrow> \<exists>r'. Row_scans ds r d = Done (r', d) \<and> Row_closed r'"
proof (induction ds arbitrary: r)
  case Nil
  then show ?case by simp
next
  case (Cons a ds)
  let ?r = "r\<lparr>Row_sql := fst (sql_Row_Scan (Row_sql r) a)\<rparr>"
  from Cons.prems have "Row_closed ?r" by simp
  from Cons.IH[OF this] Cons.prems show ?case by (simp add: Row_closed_Scan)
qed

lemma sql_Row_Scan_err:
  "snd (sql_Row_Scan sr decoded) = (case row_err sr of Some e \<Rightarrow> Some e | None \<Rightarrow> decoded)"
  by (simp add: sql_Row_Scan_def)

text \<open>
  C7, as the code has it. \<open>QueryRow\<close> cannot see whether the query failed: database/sql
  keeps the error inside the row until \<open>Scan\<close>. The row returned holds the token in every
  case. The first \<open>Scan\<close> gives the token back whatever it returns, and returns the error
  of the query when there is one; the scans after it leave every pool as it is.
\<close>

theorem single_row_releases_at_first_Scan:
  assumes "sem_ok db" and "QueryRow stack sr db = Done (db1, row)"
  shows "available db1 + (if sem db = None then 0 else 1) = available db
       \<and> Row_sql row = sr \<and> \<not> Row_closed row
       \<and> (\<exists>db2. available db2 = available db
            \<and> (\<forall>decoded. \<exists>row1.
                  Row_Scan row decoded db1 =
                    Done (row1, db2, case row_err sr of Some e \<Rightarrow> Some e | None \<Rightarrow> decoded)
                  \<and> Row_closed row1
                  \<and> (\<forall>again d. \<exists>row2 err. Row_Scan row1 again d = Done (row2, d, err)
                                          \<and> Row_closed row2))
            \<and> (\<forall>decoded ds. \<exists>row'.
                  Row_scans (decoded # ds) row db1 = Done (row', db2) \<and> Row_closed row'))"
proof -
  from QueryRow_Done[OF assms(2)] obtain r where
    g: "conn stack db = Done (db1, r)" and
    row: "row = \<lparr>Row_sql = sr, Row_closed = False, Row_release = r\<rparr>" by blast
  from conn_release[OF assms(1) g] obtain db2 where
    r: "run_release r db1 = Done db2" "available db2 = available db" by blast
  have o: "\<not> Row_closed row" "run_release (Row_release row) db1 = Done db2"
    using row r by simp_all
  have first: "\<exists>row1.
                  Row_Scan row decoded db1 =
                    Done (row1, db2, case row_err sr of Some e \<Rightarrow> Some e | None \<Rightarrow> decoded)
                  \<and> Row_closed row1
                  \<and> (\<forall>again d. \<exists>row2 err. Row_Scan row1 again d = Done (row2, d, err)
                                          \<and> Row_closed row2)" for decoded
  proof -
    let ?row1 = "row\<lparr>Row_sql := fst (sql_Row_Scan (Row_sql row) decoded), Row_closed := True\<rparr>"
    have "Row_Scan row decoded db1 =
            Done (?row1, db2, case row_err sr of Some e \<Rightarrow> Some e | None \<Rightarrow> decoded)"
      using Row_open_Scan[OF o, of decoded] row by (simp add: sql_Row_Scan_err)
    moreover have "Row_closed ?row1" by simp
    moreover have "\<forall>again d. \<exists>row2 err. Row_Scan ?row1 again d = Done (row2, d, err) \<and> Row_closed row2"
      by (simp add: Row_closed_Scan)
    ultimately show ?thesis by blast
  qed
  have later: "\<exists>row'. Row_scans (decoded # ds) row db1 = Done (row', db2) \<and> Row_closed row'"
    for decoded ds
  proof -
    let ?row1 = "row\<lparr>Row_sql := fst (sql_Row_Scan (Row_sql row) decoded), Row_closed := True\<rparr>"
    have "Row_closed ?row1" by simp
    from Row_scans_closed[OF this, of ds db2] show ?thesis
      by (simp add: Row_open_Scan[OF o])
  qed
  from first later r(2) conn_takes_one(1)[OF assms(1) g] row show ?thesis
    by simp blast
qed

theorem single_row_releases_at_first_Scan_witness:
  "sem_ok pool_of_one
   \<and> QueryRow ''main'' \<lparr>row_err = Some ''bad query'', row_calls = []\<rparr> pool_of_one
       = Done (taken_pool, \<lparr>Row_sql = \<lparr>row_err = Some ''bad query'', row_calls = []\<rparr>,
                            Row_closed = False, Row_release = held\<rparr>)
   \<and> available taken_pool + (if sem pool_of_one = None then 0 else 1) = available pool_of_one
   \<and> Row_Scan \<lparr>Row_sql = \<lparr>row_err = Some ''bad query'', row_calls = []\<rparr>,
                 Row_closed = False, Row_release = held\<rparr> None taken_pool
       = Done (\<lparr>Row_sql = \<lparr>row_err = Some ''bad query'', row_calls = [Call_Scan]\<rparr>,
                 Row_closed = True, Row_release = held\<rparr>, pool_of_one, Some ''bad query'')"
proof -
  have q: "QueryRow ''main'' \<lparr>row_err = Some ''bad query'', row_calls = []\<rparr> pool_of_one
       = Done (taken_pool, \<lparr>Row_sql = \<lparr>row_err = Some ''bad query'', row_calls = []\<rparr>,
                            Row_closed = False, Row_release = held\<rparr>)"
    by (simp add: QueryRow_def QueryRow_finish_def conn_pool_of_one)
  have sc: "Row_Scan \<lparr>Row_sql = \<lparr>row_err = Some ''bad query'', row_calls = []\<rparr>,
                 Row_closed = False, Row_release = held\<rparr> None taken_pool
       = Done (\<lparr>Row_sql = \<lparr>row_err = Some ''bad query'', row_calls = [Call_Scan]\<rparr>,
                 Row_closed = True, Row_release = held\<rparr>, pool_of_one, Some ''bad query'')"
    by (simp add: Row_Scan_def sql_Row_Scan_def release_held)
  from single_row_releases_at_first_Scan[OF pool_of_one_ok q]
  have "available taken_pool + (if sem pool_of_one = None then 0 else 1) = available pool_of_one"
    by (rule conjunct1)
  with q sc pool_of_one_ok show ?thesis by simp
qed

text \<open>
  C7 as written says that the token is released at once when the query itself
  failed. On a pool of one token, \<open>QueryRow\<close> with a query that failed returns with the
  token still taken, and a second \<open>conn()\<close> has to wait.
\<close>

theorem QueryRow_failed_query_keeps_token:
  "QueryRow ''main'' \<lparr>row_err = Some ''bad query'', row_calls = []\<rparr> pool_of_one
     = Done (taken_pool, \<lparr>Row_sql = \<lparr>row_err = Some ''bad query'', row_calls = []\<rparr>,
                          Row_closed = False, Row_release = held\<rparr>)
   \<and> available pool_of_one = 1 \<and> available taken_pool = 0
   \<and> conn ''next'' taken_pool = Blocked"
  by (simp add: QueryRow_def QueryRow_finish_def conn_pool_of_one available_examples)
     (simp add: conn_def recv_def taken_pool_def pool_of_one_def)

subsection \<open>Statements\<close>

lemma deferred_after_conn:
  assumes ok: "sem_ok db" and rdy: "sem db = None \<or> 0 < available db"
  shows "\<exists>db'. bind_outcome (conn stack db) (\<lambda>(db1, r). deferred r res db1) = Done (db', res)
              \<and> available db' = available db"
proof -
  from conn_ready[OF ok rdy] obtain db1 r where g: "conn stack db = Done (db1, r)" by blast
  from conn_release[OF ok g] obtain db2 where
    r: "run_release r db1 = Done db2" "available db2 = available db" by blast
  show ?thesis using g r by (simp add: deferred_def)
qed

lemma conn_exhausted:
  assumes "sem_ok db" and "sem db \<noteq> None" and "available db = 0"
  shows "conn stack db = Blocked"
proof -
  from assms(2) obtain ch where s: "sem db = Some ch" by blast
  with assms(1,3) have "ch_buf ch = []" "\<not> ch_closed ch"
    by (simp_all add: available_def sem_ok_def)
  with s show ?thesis by (simp add: conn_eq_empty)
qed

text \<open>
  C5. \<open>Tx.Prepare\<close> and \<open>Tx.Stmt\<close> return statements whose \<open>db\<close> is nil. On such a
  statement \<open>Exec\<close>, \<open>Query\<close> and \<open>QueryRow\<close> return with the pool exactly as it was,
  also when the pool has no token left, and the cursor or row they return carries
  \<open>dummyRelease\<close>, which does nothing. \<open>DB.Prepare\<close> returns a statement that points to
  its pool. On such a statement every call goes through \<open>conn()\<close>: with no token left it
  waits; otherwise \<open>Exec\<close> takes a token and gives it back before it returns, and
  \<open>Query\<close> and \<open>QueryRow\<close> take a token and hand its release to the cursor or row.
\<close>

theorem tx_statements_do_not_acquire:
  "snd (Tx_Prepare tx (Inr q)) = (Some \<lparr>Stmt_stmt = q, Stmt_db = Nil_db\<rparr>, None)
   \<and> snd (Tx_Stmt tx stmt q) = \<lparr>Stmt_stmt = q, Stmt_db = Nil_db\<rparr>
   \<and> (Stmt_db s = Nil_db \<longrightarrow>
         Stmt_Exec stack s res db = Done (db, res)
       \<and> Stmt_Query stack s (rows, None) db
           = Done (db, Some \<lparr>Rows_sql = rows, Rows_closed = False, Rows_release = dummyRelease\<rparr>, None)
       \<and> Stmt_QueryRow stack s row db
           = Done (db, \<lparr>Row_sql = row, Row_closed = False, Row_release = dummyRelease\<rparr>)
       \<and> run_release dummyRelease db = Done db)
   \<and> (\<forall>db' p e. Prepare stack (Inr q) db = Done (db', p, e) \<longrightarrow>
         p = Some \<lparr>Stmt_stmt = q, Stmt_db = This_db\<rparr>)
   \<and> (Stmt_db s = This_db \<and> sem_ok db \<and> sem db \<noteq> None \<longrightarrow>
         (available db = 0 \<longrightarrow>
            Stmt_Exec stack s res db = Blocked
          \<and> Stmt_Query stack s (rows, None) db = Blocked
          \<and> Stmt_QueryRow stack s row db = Blocked)
       \<and> (0 < available db \<longrightarrow>
            (\<exists>db'. Stmt_Exec stack s res db = Done (db', res) \<and> available db' = available db)
          \<and> (\<exists>db1 r. conn stack db = Done (db1, r) \<and> rel_lock r
                \<and> available db1 + 1 = available db
                \<and> Stmt_Query stack s (rows, None) db
                    = Done (db1, Some \<lparr>Rows_sql = rows, Rows_closed = False, Rows_release = r\<rparr>, None)
                \<and> Stmt_QueryRow stack s row db
                    = Done (db1, \<lparr>Row_sql = row, Row_closed = False, Row_release = r\<rparr>))))"
proof (intro conjI impI allI)
  show "snd (Tx_Prepare tx (Inr q)) = (Some \<lparr>Stmt_stmt = q, Stmt_db = Nil_db\<rparr>, None)"
    by (simp add: Tx_Prepare_def)
  show "snd (Tx_Stmt tx stmt q) = \<lparr>Stmt_stmt = q, Stmt_db = Nil_db\<rparr>"
    by (simp add: Tx_Stmt_def)
next
  assume "Stmt_db s = Nil_db"
  then show "Stmt_Exec stack s res db = Done (db, res)"
    and "Stmt_Query stack s (rows, None) db
           = Done (db, Some \<lparr>Rows_sql = rows, Rows_closed = False, Rows_release = dummyRelease\<rparr>, None)"
    and "Stmt_QueryRow stack s row db
           = Done (db, \<lparr>Row_sql = row, Row_closed = False, Row_release = dummyRelease\<rparr>)"
    by (simp_all add: Stmt_Exec_def Stmt_Query_def Stmt_QueryRow_def Query_finish_def
        QueryRow_finish_def)
  show "run_release dummyRelease db = Done db" by (rule run_release_dummy)
next
  fix db' p e
  assume a: "Prepare stack (Inr q) db = Done (db', p, e)"
  show "p = Some \<lparr>Stmt_stmt = q, Stmt_db = This_db\<rparr>"
  proof (cases "conn stack db")
    case (Done x)
    obtain d r where x: "x = (d, r)" by (cases x)
    show ?thesis
    proof (cases "run_release r d")
      case (Done d')
      with a x \<open>conn stack db = Done x\<close> show ?thesis
        by (simp add: Prepare_def deferred_def Prepare_result_def)
    next
      case Blocked
      with a x \<open>conn stack db = Done x\<close> show ?thesis
        by (simp add: Prepare_def deferred_def)
    next
      case Panicked
      with a x \<open>conn stack db = Done x\<close> show ?thesis
        by (simp add: Prepare_def deferred_def)
    qed
  next
    case Blocked
    with a show ?thesis by (simp add: Prepare_def)
  next
    case Panicked
    with a show ?thesis by (simp add: Prepare_def)
  qed
next
  assume a: "Stmt_db s = This_db \<and> sem_ok db \<and> sem db \<noteq> None" and z: "available db = 0"
  then have "conn stack db = Blocked" by (simp add: conn_exhausted)
  with a show "Stmt_Exec stack s res db = Blocked"
    and "Stmt_Query stack s (rows, None) db = Blocked"
    and "Stmt_QueryRow stack s row db = Blocked"
    by (simp_all add: Stmt_Exec_def Stmt_Query_def Stmt_QueryRow_def)
next
  assume a: "Stmt_db s = This_db \<and> sem_ok db \<and> sem db \<noteq> None" and p: "0 < available db"
  then have ok: "sem_ok db" and rdy: "sem db = None \<or> 0 < available db" by simp_all
  from deferred_after_conn[OF ok rdy, of stack res] a
  show "\<exists>db'. Stmt_Exec stack s res db = Done (db', res) \<and> available db' = available db"
    by (simp add: Stmt_Exec_def)
  from conn_ready[OF ok rdy] obtain db1 r where g: "conn stack db = Done (db1, r)" by blast
  from conn_takes_one[OF ok g] a have "rel_lock r" "available db1 + 1 = available db"
    by simp_all
  with g a show "\<exists>db1 r. conn stack db = Done (db1, r) \<and> rel_lock r
                \<and> available db1 + 1 = available db
                \<and> Stmt_Query stack s (rows, None) db
                    = Done (db1, Some \<lparr>Rows_sql = rows, Rows_closed = False, Rows_release = r\<rparr>, None)
                \<and> Stmt_QueryRow stack s row db
                    = Done (db1, \<lparr>Row_sql = row, Row_closed = False, Row_release = r\<rparr>)"
    by (simp add: Stmt_Query_def Stmt_QueryRow_def Query_finish_def QueryRow_finish_def)
qed

lemma taken_pool_ok: "sem_ok taken_pool" "sem taken_pool \<noteq> None" "sem pool_of_one \<noteq> None"
  by (simp_all add: sem_ok_def taken_pool_def pool_of_one_def)

theorem tx_statements_do_not_acquire_witness:
  "Stmt_Exec ''main'' \<lparr>Stmt_stmt = ''insert'', Stmt_db = Nil_db\<rparr> ((), None) taken_pool
     = Done (taken_pool, (), None)
   \<and> Stmt_Exec ''main'' \<lparr>Stmt_stmt = ''insert'', Stmt_db = This_db\<rparr> ((), None) taken_pool
     = Blocked
   \<and> (\<exists>db'. Stmt_Exec ''main'' \<lparr>Stmt_stmt = ''insert'', Stmt_db = This_db\<rparr> ((), None) pool_of_one
              = Done (db', (), None) \<and> available db' = available pool_of_one)
   \<and> Prepare ''main'' (Inr ''insert'') pool_of_one
       = Done (pool_of_one, Some \<lparr>Stmt_stmt = ''insert'', Stmt_db = This_db\<rparr>, None)"
proof -
  have p: "Prepare ''main'' (Inr ''insert'') pool_of_one
       = Done (pool_of_one, Some \<lparr>Stmt_stmt = ''insert'', Stmt_db = This_db\<rparr>, None)"
    by (simp add: Prepare_def deferred_def Prepare_result_def conn_pool_of_one release_held)
  have 1: "Stmt_Exec ''main'' \<lparr>Stmt_stmt = ''insert'', Stmt_db = Nil_db\<rparr> ((), None) taken_pool
     = Done (taken_pool, (), None)"
    using tx_statements_do_not_acquire[of "\<lparr>Tx_trn = [], Tx_closed = False, Tx_release = held\<rparr>"
        "''insert''" "\<lparr>Stmt_stmt = ''insert'', Stmt_db = This_db\<rparr>"
        "\<lparr>Stmt_stmt = ''insert'', Stmt_db = Nil_db\<rparr>" "''main''" "((), None)" taken_pool]
    by simp
  have 2: "Stmt_Exec ''main'' \<lparr>Stmt_stmt = ''insert'', Stmt_db = This_db\<rparr> ((), None) taken_pool
     = Blocked"
    using tx_statements_do_not_acquire[of "\<lparr>Tx_trn = [], Tx_closed = False, Tx_release = held\<rparr>"
        "''insert''" "\<lparr>Stmt_stmt = ''insert'', Stmt_db = This_db\<rparr>"
        "\<lparr>Stmt_stmt = ''insert'', Stmt_db = This_db\<rparr>" "''main''" "((), None)" taken_pool]
      taken_pool_ok available_examples
    by simp
  have 3: "\<exists>db'. Stmt_Exec ''main'' \<lparr>Stmt_stmt = ''insert'', Stmt_db = This_db\<rparr> ((), None) pool_of_one
              = Done (db', (), None) \<and> available db' = available pool_of_one"
    using tx_statements_do_not_acquire[of "\<lparr>Tx_trn = [], Tx_closed = False, Tx_release = held\<rparr>"
        "''insert''" "\<lparr>Stmt_stmt = ''insert'', Stmt_db = This_db\<rparr>"
        "\<lparr>Stmt_stmt = ''insert'', Stmt_db = This_db\<rparr>" "''main''" "((), None)" pool_of_one]
      taken_pool_ok pool_of_one_ok available_examples
    by simp
  from 1 2 3 p show ?thesis by simp
qed

subsection \<open>The global setting\<close>

lemma new_DB_Done:
  "\<exists>db. new_DB c sqldb = Done db
        \<and> maxConns db = (if 0 < c then c else 0)
        \<and> sem db = (if 0 < c
                     then Some \<lparr>ch_cap = nat c, ch_buf = replicate (nat c) True, ch_closed = False\<rparr>
                     else None)
        \<and> blockCh db = None \<and> usageTimeout db = 0 \<and> usageTimeoutCh db = None \<and> timers db = []"
proof (cases "0 < c")
  case True
  then show ?thesis by (simp add: new_DB_bounded)
next
  case False
  then show ?thesis by (simp add: new_DB_unlimited)
qed

lemma Concurrency_Set: "Concurrency (SetConcurrency n w) = (if 0 < n then n else 0)"
  by (simp add: Concurrency_def SetConcurrency_def)

lemma pools_Set: "pools (SetConcurrency n w) = pools w"
  by (simp add: SetConcurrency_def)

lemma Open_Done:
  "\<exists>db. Open (Inr sqldb) w = Done (w\<lparr>pools := pools w @ [db]\<rparr>, Inr (length (pools w)))
        \<and> maxConns db = (if 0 < Concurrency w then Concurrency w else 0)
        \<and> sem db = (if 0 < Concurrency w
                     then Some \<lparr>ch_cap = nat (Concurrency w),
                                ch_buf = replicate (nat (Concurrency w)) True, ch_closed = False\<rparr>
                     else None)"
proof -
  from new_DB_Done[of "Concurrency w" sqldb] obtain db where
    "new_DB (Concurrency w) sqldb = Done db"
    "maxConns db = (if 0 < Concurrency w then Concurrency w else 0)"
    "sem db = (if 0 < Concurrency w
                     then Some \<lparr>ch_cap = nat (Concurrency w),
                                ch_buf = replicate (nat (Concurrency w)) True, ch_closed = False\<rparr>
                     else None)" by blast
  then show ?thesis by (intro exI[of _ db]) (simp add: Open_def)
qed

text \<open>
  C8. \<open>SetConcurrency\<close> writes the package variable and nothing else: the list of open
  pools is the same after it. A pool opened under the setting \<open>m\<close> therefore keeps, after
  \<open>SetConcurrency(n)\<close>, the record it had, with \<open>MaxConns\<close> and token channel as \<open>m\<close> fixed
  them; the next pool opened gets them from \<open>n\<close>, and opening it leaves the first as it is.
\<close>

theorem SetConcurrency_leaves_open_pools:
  assumes "Open (Inr sqldb) (SetConcurrency m w) = Done (w1, Inr p)"
  shows "pools (SetConcurrency n w1) = pools w1
       \<and> p < length (pools w1)
       \<and> MaxConns (pools (SetConcurrency n w1) ! p) = (if 0 < m then m else 0)
       \<and> sem (pools (SetConcurrency n w1) ! p)
           = (if 0 < m
              then Some \<lparr>ch_cap = nat m, ch_buf = replicate (nat m) True, ch_closed = False\<rparr>
              else None)
       \<and> (\<exists>w2. Open (Inr sqldb') (SetConcurrency n w1) = Done (w2, Inr (Suc p))
            \<and> pools w2 ! p = pools w1 ! p
            \<and> MaxConns (pools w2 ! Suc p) = (if 0 < n then n else 0)
            \<and> sem (pools w2 ! Suc p)
                = (if 0 < n
                   then Some \<lparr>ch_cap = nat n, ch_buf = replicate (nat n) True, ch_closed = False\<rparr>
                   else None))"
proof -
  let ?w = "SetConcurrency m w"
  from Open_Done[of sqldb ?w] obtain db where
    o: "Open (Inr sqldb) ?w = Done (?w\<lparr>pools := pools ?w @ [db]\<rparr>, Inr (length (pools ?w)))"
    and m: "maxConns db = (if 0 < m then m else 0)"
    and s: "sem db = (if 0 < m
                     then Some \<lparr>ch_cap = nat m, ch_buf = replicate (nat m) True, ch_closed = False\<rparr>
                     else None)"
    by (auto simp: Concurrency_Set)
  from o assms have w1: "w1 = ?w\<lparr>pools := pools ?w @ [db]\<rparr>" and p: "p = length (pools ?w)"
    by simp_all
  then have at: "pools w1 ! p = db" and len: "length (pools w1) = Suc p" by simp_all
  let ?v = "SetConcurrency n w1"
  have pv: "pools ?v = pools w1" by (rule pools_Set)
  from Open_Done[of sqldb' ?v] obtain db' where
    o': "Open (Inr sqldb') ?v = Done (?v\<lparr>pools := pools ?v @ [db']\<rparr>, Inr (length (pools ?v)))"
    and m': "maxConns db' = (if 0 < n then n else 0)"
    and s': "sem db' = (if 0 < n
                     then Some \<lparr>ch_cap = nat n, ch_buf = replicate (nat n) True, ch_closed = False\<rparr>
                     else None)"
    by (auto simp: Concurrency_Set)
  let ?w2 = "?v\<lparr>pools := pools ?v @ [db']\<rparr>"
  have "Open (Inr sqldb') ?v = Done (?w2, Inr (Suc p))" using o' pv len by simp
  moreover have "pools ?w2 ! p = pools w1 ! p" using pv len by (simp add: nth_append)
  moreover have "pools ?w2 ! Suc p = db'" using pv len by (simp add: nth_append)
  ultimately have "\<exists>w2. Open (Inr sqldb') (SetConcurrency n w1) = Done (w2, Inr (Suc p))
            \<and> pools w2 ! p = pools w1 ! p
            \<and> MaxConns (pools w2 ! Suc p) = (if 0 < n then n else 0)
            \<and> sem (pools w2 ! Suc p)
                = (if 0 < n
                   then Some \<lparr>ch_cap = nat n, ch_buf = replicate (nat n) True, ch_closed = False\<rparr>
                   else None)"
    using m' s' by (intro exI[of _ ?w2]) (simp add: MaxConns_def)
  with pv at len m s show ?thesis by (simp add: MaxConns_def)
qed

theorem SetConcurrency_leaves_open_pools_witness:
  "Open (Inr \<lparr>maxIdleConns = 2\<rparr>) (SetConcurrency 1 \<lparr>concurrency = 0, pools = []\<rparr>)
     = Done (\<lparr>concurrency = 1, pools = [pool_of_one]\<rparr>, Inr 0)
   \<and> pools (SetConcurrency 5 \<lparr>concurrency = 1, pools = [pool_of_one]\<rparr>) = [pool_of_one]
   \<and> MaxConns (pools (SetConcurrency 5 \<lparr>concurrency = 1, pools = [pool_of_one]\<rparr>) ! 0) = 1"
proof -
  have o: "Open (Inr \<lparr>maxIdleConns = 2\<rparr>) (SetConcurrency 1 \<lparr>concurrency = 0, pools = []\<rparr>)
     = Done (\<lparr>concurrency = 1, pools = [pool_of_one]\<rparr>, Inr 0)"
    by (simp add: Open_def SetConcurrency_def Concurrency_def new_DB_pool_of_one)
  from SetConcurrency_leaves_open_pools[OF o, where n = 5 and sqldb' = "\<lparr>maxIdleConns = 2\<rparr>"]
  show ?thesis using o by (simp add: SetConcurrency_def)
qed

subsection \<open>What each operation does to the pool\<close>

lemma follows_refl: "follows db db"
  by (simp add: follows_def)

lemma follows_trans: "follows a b \<Longrightarrow> follows b c \<Longrightarrow> follows a c"
  by (auto simp: follows_def)

lemma bounded_frame: "sem db' = sem db \<Longrightarrow> bounded n db' k = bounded n db k"
  by (simp add: bounded_def)

lemma follows_frame:
  "sem db' = sem db \<Longrightarrow> usageTimeout db' = usageTimeout db \<Longrightarrow>
   length (timers db') = length (timers db) \<Longrightarrow> follows db db'"
  by (simp add: follows_def)

lemma cancelUsageTimeout_frame:
  assumes "cancelUsageTimeout t db = Done db'"
  shows "sem db' = sem db" and "usageTimeout db' = usageTimeout db"
    and "length (timers db') = length (timers db)" and "blockCh db' = blockCh db"
proof -
  have "sem db' = sem db \<and> usageTimeout db' = usageTimeout db
        \<and> length (timers db') = length (timers db) \<and> blockCh db' = blockCh db"
  proof (cases t)
    case None
    with assms show ?thesis by (simp add: cancelUsageTimeout_def)
  next
    case (Some i)
    show ?thesis
    proof (cases "i < length (timers db)")
      case False
      with assms Some show ?thesis by (simp add: cancelUsageTimeout_def)
    next
      case True
      show ?thesis
      proof (cases "send () (tm_cancelCh (timers db ! i))")
        case (Done c1)
        show ?thesis
        proof (cases "close_chan c1")
          case (Done c2)
          with assms Some True \<open>send () (tm_cancelCh (timers db ! i)) = Done c1\<close>
          have "db' = db\<lparr>timers := (timers db)[i := (timers db ! i)\<lparr>tm_cancelCh := c2\<rparr>]\<rparr>"
            by (simp add: cancelUsageTimeout_def)
          then show ?thesis by simp
        next
          case Blocked
          with assms Some True \<open>send () (tm_cancelCh (timers db ! i)) = Done c1\<close>
          show ?thesis by (simp add: cancelUsageTimeout_def)
        next
          case Panicked
          with assms Some True \<open>send () (tm_cancelCh (timers db ! i)) = Done c1\<close>
          show ?thesis by (simp add: cancelUsageTimeout_def)
        qed
      next
        case Blocked
        with assms Some True show ?thesis by (simp add: cancelUsageTimeout_def)
      next
        case Panicked
        with assms Some True show ?thesis by (simp add: cancelUsageTimeout_def)
      qed
    qed
  qed
  then show "sem db' = sem db" and "usageTimeout db' = usageTimeout db"
    and "length (timers db') = length (timers db)" and "blockCh db' = blockCh db" by simp_all
qed

lemma releaseLock_effect:
  assumes "releaseLock l db = Done db'"
  shows "usageTimeout db' = usageTimeout db" and "timers db' = timers db"
    and "blockCh db' = blockCh db"
    and "(sem db' = None) = (sem db = None)"
    and "bounded n db (k + (if l then 1 else 0)) \<Longrightarrow> bounded n db' k"
proof -
  have "usageTimeout db' = usageTimeout db \<and> timers db' = timers db \<and> blockCh db' = blockCh db
        \<and> (sem db' = None) = (sem db = None)
        \<and> (bounded n db (k + (if l then 1 else 0)) \<longrightarrow> bounded n db' k)"
  proof (cases l)
    case False
    with assms show ?thesis by (simp add: releaseLock_def)
  next
    case True
    show ?thesis
    proof (cases "sem db")
      case None
      with assms True show ?thesis by (simp add: releaseLock_def)
    next
      case (Some ch)
      show ?thesis
      proof (cases "send True ch")
        case (Done ch')
        with assms True Some have e: "db' = db\<lparr>sem := Some ch'\<rparr>"
          by (simp add: releaseLock_def)
        from Done have "\<not> ch_closed ch \<and> length (ch_buf ch) < ch_cap ch
                        \<and> ch' = ch\<lparr>ch_buf := ch_buf ch @ [True]\<rparr>"
          by (simp add: send_def split: if_splits)
        with e Some True show ?thesis by (simp add: bounded_def)
      next
        case Blocked
        with assms True Some show ?thesis by (simp add: releaseLock_def)
      next
        case Panicked
        with assms True Some show ?thesis by (simp add: releaseLock_def)
      qed
    qed
  qed
  then show "usageTimeout db' = usageTimeout db" and "timers db' = timers db"
    and "blockCh db' = blockCh db"
    and "(sem db' = None) = (sem db = None)"
    and "bounded n db (k + (if l then 1 else 0)) \<Longrightarrow> bounded n db' k" by simp_all
qed

lemma run_release_split:
  assumes "run_release r db = Done db'"
  shows "\<exists>m. releaseLock (rel_lock r) db = Done m \<and> cancelUsageTimeout (rel_timer r) m = Done db'"
proof (cases "releaseLock (rel_lock r) db")
  case (Done m)
  with assms show ?thesis by (simp add: run_release_def)
next
  case Blocked
  with assms show ?thesis by (simp add: run_release_def)
next
  case Panicked
  with assms show ?thesis by (simp add: run_release_def)
qed

lemma run_release_effect:
  assumes "run_release r db = Done db'"
  shows "follows db db'"
    and "blockCh db' = blockCh db"
    and "bounded n db (k + holds False r) \<Longrightarrow> bounded n db' k"
proof -
  from run_release_split[OF assms] obtain m where
    1: "releaseLock (rel_lock r) db = Done m" and 2: "cancelUsageTimeout (rel_timer r) m = Done db'"
    by blast
  show "follows db db'"
    using releaseLock_effect(1,2,4)[OF 1] cancelUsageTimeout_frame(1,2,3)[OF 2]
    by (simp add: follows_def)
  show "blockCh db' = blockCh db"
    using releaseLock_effect(3)[OF 1] cancelUsageTimeout_frame(4)[OF 2] by simp
  assume "bounded n db (k + holds False r)"
  then have "bounded n m k" using releaseLock_effect(5)[OF 1, of n k] by (simp add: holds_def)
  then show "bounded n db' k" using cancelUsageTimeout_frame(1)[OF 2] by (simp add: bounded_def)
qed

lemma conn_usage_effect:
  "follows db (fst (conn_usage stack l db))"
  "bounded n (fst (conn_usage stack l db)) k = bounded n db k"
  "usageTimeout db = 0 \<Longrightarrow> conn_usage stack l db = (db, \<lparr>rel_lock = l, rel_timer = None\<rparr>)"
  by (simp_all add: conn_usage_def follows_def bounded_def)

lemma bind_outcome_Done:
  "(bind_outcome m f = Done y) = (\<exists>x. m = Done x \<and> f x = Done y)"
  by (cases m) simp_all

lemma holds_dummy: "holds c dummyRelease = 0"
  by (simp add: holds_def dummyRelease_def)

lemma holds_closed: "holds True r = 0"
  by (simp add: holds_def)

lemma conn_effect:
  assumes "conn stack db = Done (db', r)"
  shows "follows db db'"
    and "blockCh db' = blockCh db"
    and "bounded n db k \<Longrightarrow> bounded n db' (k + holds False r) \<and> rel_lock r"
    and "sem db = None \<Longrightarrow> \<not> rel_lock r"
    and "usageTimeout db = 0 \<Longrightarrow> rel_timer r = None \<and> timers db' = timers db"
proof -
  have "follows db db' \<and> blockCh db' = blockCh db
        \<and> (bounded n db k \<longrightarrow> bounded n db' (k + holds False r) \<and> rel_lock r)
        \<and> (sem db = None \<longrightarrow> \<not> rel_lock r)
        \<and> (usageTimeout db = 0 \<longrightarrow> rel_timer r = None \<and> timers db' = timers db)"
  proof (cases "sem db")
    case None
    with assms have e: "db' = fst (conn_usage stack False db)" "r = snd (conn_usage stack False db)"
      by (simp_all add: conn_eq_unlimited)
    show ?thesis unfolding e using None
      by (simp add: conn_usage_effect conn_usage_frame bounded_def)
  next
    case (Some ch)
    show ?thesis
    proof (cases "ch_buf ch")
      case Nil
      show ?thesis
      proof (cases "ch_closed ch")
        case False
        with assms Some Nil show ?thesis by (simp add: conn_eq_empty)
      next
        case True
        with assms Some Nil
        have e: "db' = fst (conn_usage stack True (db\<lparr>sem := Some ch\<rparr>))"
          "r = snd (conn_usage stack True (db\<lparr>sem := Some ch\<rparr>))"
          by (simp_all add: conn_def recv_def)
        show ?thesis unfolding e using Some True
          by (simp add: conn_usage_frame bounded_def follows_def conn_usage_def)
      qed
    next
      case (Cons t ts)
      let ?d = "db\<lparr>sem := Some (ch\<lparr>ch_buf := ts\<rparr>)\<rparr>"
      from assms Some Cons have e: "db' = fst (conn_usage stack True ?d)"
        "r = snd (conn_usage stack True ?d)"
        by (simp_all add: conn_eq_token)
      have f: "follows db ?d" using Some by (simp add: follows_def)
      have "follows db (fst (conn_usage stack True ?d))"
        by (rule follows_trans[OF f conn_usage_effect(1)])
      moreover have "bounded n db k \<longrightarrow> bounded n ?d (k + 1)"
        using Some Cons by (simp add: bounded_def)
      ultimately show ?thesis unfolding e using Some
        by (simp add: conn_usage_effect conn_usage_frame holds_def)
    qed
  qed
  then show "follows db db'"
    and "blockCh db' = blockCh db"
    and "bounded n db k \<Longrightarrow> bounded n db' (k + holds False r) \<and> rel_lock r"
    and "sem db = None \<Longrightarrow> \<not> rel_lock r"
    and "usageTimeout db = 0 \<Longrightarrow> rel_timer r = None \<and> timers db' = timers db"
    by simp_all
qed

lemma conn_take_effect:
  assumes "conn_take db = Done db'"
  shows "follows db db'"
    and "blockCh db' = blockCh db"
    and "sem db \<noteq> None"
    and "bounded n db k \<Longrightarrow> bounded n db' (k + 1)"
proof -
  have "follows db db' \<and> blockCh db' = blockCh db \<and> sem db \<noteq> None
        \<and> (bounded n db k \<longrightarrow> bounded n db' (k + 1))"
  proof (cases "sem db")
    case None
    with assms show ?thesis by (simp add: conn_take_eq_unlimited)
  next
    case (Some ch)
    show ?thesis
    proof (cases "ch_buf ch")
      case Nil
      show ?thesis
      proof (cases "ch_closed ch")
        case False
        with assms Some Nil show ?thesis by (simp add: conn_take_eq_empty)
      next
        case True
        with assms Some Nil have "db' = db\<lparr>sem := Some ch\<rparr>"
          by (simp add: conn_take_def recv_def)
        then show ?thesis using Some True by (simp add: follows_def bounded_def)
      qed
    next
      case (Cons t ts)
      with assms Some have "db' = db\<lparr>sem := Some (ch\<lparr>ch_buf := ts\<rparr>)\<rparr>"
        by (simp add: conn_take_eq_token)
      then show ?thesis using Some Cons by (simp add: follows_def bounded_def)
    qed
  qed
  then show "follows db db'" and "blockCh db' = blockCh db" and "sem db \<noteq> None"
    and "bounded n db k \<Longrightarrow> bounded n db' (k + 1)" by simp_all
qed

lemma conn_report_effect:
  assumes "conn_report d stack db = Done (db', r)"
  shows "follows db db'"
    and "bounded n db (k + 1) \<Longrightarrow> bounded n db' (k + holds False r)"
    and "usageTimeout db = 0 \<Longrightarrow> rel_timer r = None \<and> timers db' = timers db"
proof -
  from conn_report_Done[OF assms] obtain m where
    m: "sem m = sem db" "usageTimeout m = usageTimeout db" "timers m = timers db"
    and e: "(db', r) = conn_usage stack True m" by blast
  from e have e': "db' = fst (conn_usage stack True m)" "r = snd (conn_usage stack True m)"
    by (metis fst_conv, metis snd_conv)
  have f: "follows db m" using m by (simp add: follows_def)
  show "follows db db'" unfolding e' by (rule follows_trans[OF f conn_usage_effect(1)])
  show "usageTimeout db = 0 \<Longrightarrow> rel_timer r = None \<and> timers db' = timers db"
    unfolding e' using m by (simp add: conn_usage_def)
  assume "bounded n db (k + 1)"
  then have "bounded n m (k + 1)" using m(1) by (simp add: bounded_def)
  then show "bounded n db' (k + holds False r)"
    unfolding e' by (simp add: conn_usage_effect conn_usage_frame holds_def)
qed

lemma holds_open: "holds False r = (if rel_lock r then 1 else 0)"
  by (simp add: holds_def)

lemma Query_finish_effect:
  assumes "Query_finish r res db = Done (db', rows, err)"
  shows "follows db db'"
    and "blockCh db' = blockCh db"
    and "bounded n db (k + holds False r) \<Longrightarrow>
         bounded n db' (k + sum_list (map (\<lambda>c. holds (Rows_closed c) (Rows_release c)) (handed rows)))"
proof -
  have "follows db db' \<and> blockCh db' = blockCh db \<and> (bounded n db (k + holds False r) \<longrightarrow>
         bounded n db' (k + sum_list (map (\<lambda>c. holds (Rows_closed c) (Rows_release c)) (handed rows))))"
  proof (cases "snd res")
    case None
    with assms show ?thesis by (auto simp: Query_finish_def handed_def follows_refl)
  next
    case (Some e)
    with assms have rr: "run_release r db = Done db'" and cl: "rows = None"
      by (auto simp: Query_finish_def bind_outcome_Done)
    with run_release_effect(1,2)[OF rr] run_release_effect(3)[OF rr, of n k] cl show ?thesis by (simp add: handed_def)
  qed
  then show "follows db db'"
    and "blockCh db' = blockCh db"
    and "bounded n db (k + holds False r) \<Longrightarrow>
         bounded n db' (k + sum_list (map (\<lambda>c. holds (Rows_closed c) (Rows_release c)) (handed rows)))"
    by simp_all
qed

lemma Begin_finish_effect:
  assumes "Begin_finish r res db = Done (db', tx, err)"
  shows "follows db db'"
    and "blockCh db' = blockCh db"
    and "bounded n db (k + holds False r) \<Longrightarrow>
         bounded n db' (k + sum_list (map (\<lambda>t. holds (Tx_closed t) (Tx_release t)) (handed tx)))"
proof -
  have "follows db db' \<and> blockCh db' = blockCh db \<and> (bounded n db (k + holds False r) \<longrightarrow>
         bounded n db' (k + sum_list (map (\<lambda>t. holds (Tx_closed t) (Tx_release t)) (handed tx))))"
  proof (cases res)
    case (Inr h)
    with assms show ?thesis by (auto simp: Begin_finish_def handed_def follows_refl)
  next
    case (Inl e)
    with assms have rr: "run_release r db = Done db'" and cl: "tx = None"
      by (auto simp: Begin_finish_def bind_outcome_Done)
    with run_release_effect(1,2)[OF rr] run_release_effect(3)[OF rr, of n k] cl show ?thesis by (simp add: handed_def)
  qed
  then show "follows db db'"
    and "blockCh db' = blockCh db"
    and "bounded n db (k + holds False r) \<Longrightarrow>
         bounded n db' (k + sum_list (map (\<lambda>t. holds (Tx_closed t) (Tx_release t)) (handed tx)))"
    by simp_all
qed

lemma Rows_Next_effect:
  assumes "Rows_Next c nxt err db = Done (c', db', b)"
  shows "follows db db'"
    and "blockCh db' = blockCh db"
    and "bounded n db (k + holds (Rows_closed c) (Rows_release c)) \<Longrightarrow>
         bounded n db' (k + holds (Rows_closed c') (Rows_release c'))"
proof -
  have "follows db db' \<and> blockCh db' = blockCh db
        \<and> (bounded n db (k + holds (Rows_closed c) (Rows_release c)) \<longrightarrow>
           bounded n db' (k + holds (Rows_closed c') (Rows_release c')))"
  proof (cases "Rows_closed c")
    case True
    with assms show ?thesis by (simp add: Rows_Next_def follows_refl)
  next
    case False
    show ?thesis
    proof (cases "Rows_sql c")
      case None
      with assms False show ?thesis by (simp add: Rows_Next_def)
    next
      case (Some h)
      show ?thesis
      proof (cases "\<not> nxt \<and> err = None")
        case True
        with assms False Some have rr: "run_release (Rows_release c) db = Done db'" and cl: "Rows_closed c'"
          by (auto simp: Rows_Next_def bind_outcome_Done)
        with run_release_effect(1,2)[OF rr] run_release_effect(3)[OF rr, of n k] cl False show ?thesis
          by (simp add: holds_closed)
      next
        case False
        with assms \<open>\<not> Rows_closed c\<close> Some have "db' = db" "Rows_closed c' = Rows_closed c"
          "Rows_release c' = Rows_release c"
          by (auto simp: Rows_Next_def split: if_splits)
        then show ?thesis by (simp add: follows_refl)
      qed
    qed
  qed
  then show "follows db db'"
    and "blockCh db' = blockCh db"
    and "bounded n db (k + holds (Rows_closed c) (Rows_release c)) \<Longrightarrow>
         bounded n db' (k + holds (Rows_closed c') (Rows_release c'))"
    by simp_all
qed

lemma Rows_Close_effect:
  assumes "Rows_Close c err db = Done (c', db', e)"
  shows "follows db db'"
    and "blockCh db' = blockCh db"
    and "bounded n db (k + holds (Rows_closed c) (Rows_release c)) \<Longrightarrow>
         bounded n db' (k + holds (Rows_closed c') (Rows_release c'))"
proof -
  have "follows db db' \<and> blockCh db' = blockCh db
        \<and> (bounded n db (k + holds (Rows_closed c) (Rows_release c)) \<longrightarrow>
           bounded n db' (k + holds (Rows_closed c') (Rows_release c')))"
  proof (cases "Rows_sql c")
    case None
    with assms show ?thesis by (simp add: Rows_Close_def)
  next
    case (Some h)
    show ?thesis
    proof (cases "Rows_closed c")
      case True
      with assms Some have "db' = db" "Rows_closed c'"
        by (auto simp: Rows_Close_def)
      with True show ?thesis by (simp add: follows_refl holds_closed)
    next
      case False
      with assms Some have rr: "run_release (Rows_release c) db = Done db'" and cl: "Rows_closed c'"
        by (auto simp: Rows_Close_def bind_outcome_Done)
      with run_release_effect(1,2)[OF rr] run_release_effect(3)[OF rr, of n k] cl False show ?thesis
        by (simp add: holds_closed)
    qed
  qed
  then show "follows db db'"
    and "blockCh db' = blockCh db"
    and "bounded n db (k + holds (Rows_closed c) (Rows_release c)) \<Longrightarrow>
         bounded n db' (k + holds (Rows_closed c') (Rows_release c'))"
    by simp_all
qed

lemma Row_Scan_effect:
  assumes "Row_Scan c decoded db = Done (c', db', e)"
  shows "follows db db'"
    and "blockCh db' = blockCh db"
    and "bounded n db (k + holds (Row_closed c) (Row_release c)) \<Longrightarrow>
         bounded n db' (k + holds (Row_closed c') (Row_release c'))"
proof -
  have "follows db db' \<and> blockCh db' = blockCh db
        \<and> (bounded n db (k + holds (Row_closed c) (Row_release c)) \<longrightarrow>
           bounded n db' (k + holds (Row_closed c') (Row_release c')))"
  proof (cases "Row_closed c")
    case True
    with assms have "db' = db" "Row_closed c'"
      by (auto simp: Row_closed_Scan)
    with True show ?thesis by (simp add: follows_refl holds_closed)
  next
    case False
    with assms have rr: "run_release (Row_release c) db = Done db'" and cl: "Row_closed c'"
      by (auto simp: Row_Scan_def split_beta bind_outcome_Done)
    with run_release_effect(1,2)[OF rr] run_release_effect(3)[OF rr, of n k] cl False show ?thesis
      by (simp add: holds_closed)
  qed
  then show "follows db db'"
    and "blockCh db' = blockCh db"
    and "bounded n db (k + holds (Row_closed c) (Row_release c)) \<Longrightarrow>
         bounded n db' (k + holds (Row_closed c') (Row_release c'))"
    by simp_all
qed

lemma Tx_end_effect:
  assumes "Tx_Commit c err db = Done (c', db', e) \<or> Tx_Rollback c err db = Done (c', db', e)"
  shows "follows db db'"
    and "blockCh db' = blockCh db"
    and "bounded n db (k + holds (Tx_closed c) (Tx_release c)) \<Longrightarrow>
         bounded n db' (k + holds (Tx_closed c') (Tx_release c'))"
proof -
  have "follows db db' \<and> blockCh db' = blockCh db
        \<and> (bounded n db (k + holds (Tx_closed c) (Tx_release c)) \<longrightarrow>
           bounded n db' (k + holds (Tx_closed c') (Tx_release c')))"
  proof (cases "Tx_closed c")
    case True
    with assms have "db' = db" "Tx_closed c'"
      by (auto simp: Tx_closed_calls)
    with True show ?thesis by (simp add: follows_refl holds_closed)
  next
    case False
    with assms have rr: "run_release (Tx_release c) db = Done db'" and cl: "Tx_closed c'"
      by (auto simp: Tx_Commit_def Tx_Rollback_def bind_outcome_Done)
    with run_release_effect(1,2)[OF rr] run_release_effect(3)[OF rr, of n k] cl False show ?thesis
      by (simp add: holds_closed)
  qed
  then show "follows db db'"
    and "blockCh db' = blockCh db"
    and "bounded n db (k + holds (Tx_closed c) (Tx_release c)) \<Longrightarrow>
         bounded n db' (k + holds (Tx_closed c') (Tx_release c'))"
    by simp_all
qed

lemma deferred_effect:
  assumes "deferred r res db = Done (db', x)"
  shows "follows db db'"
    and "blockCh db' = blockCh db"
    and "bounded n db (k + holds False r) \<Longrightarrow> bounded n db' k"
proof -
  from assms have rr: "run_release r db = Done db'"
    by (auto simp: deferred_def bind_outcome_Done)
  show "follows db db'" by (rule run_release_effect(1)[OF rr])
  show "blockCh db' = blockCh db" by (rule run_release_effect(2)[OF rr])
  show "bounded n db (k + holds False r) \<Longrightarrow> bounded n db' k"
    by (rule run_release_effect(3)[OF rr])
qed

lemma SetBlockDurationCh_effect:
  assumes "SetBlockDurationCh c db = Done db'"
  shows "follows db db'" and "bounded n db' k = bounded n db k"
proof -
  from assms have "db' = db\<lparr>blockCh := c\<rparr>"
    by (cases "blockCh db") (auto simp: SetBlockDurationCh_def bind_outcome_Done)
  then show "follows db db'" and "bounded n db' k = bounded n db k"
    by (simp_all add: follows_def bounded_def)
qed

lemma SetUsageTimeout_effect:
  "sem (SetUsageTimeout c d db) = sem db"
  "blockCh (SetUsageTimeout c d db) = blockCh db"
  "timers (SetUsageTimeout c d db) = timers db"
  "usageTimeout (SetUsageTimeout None d db) = 0"
  "usageTimeoutCh (SetUsageTimeout None d db) = None"
  "bounded n (SetUsageTimeout c d db) k = bounded n db k"
  by (simp_all add: SetUsageTimeout_def Let_def bounded_def)

lemma SetMaxIdleConns_effect:
  "follows db (SetMaxIdleConns i db)"
  "blockCh (SetMaxIdleConns i db) = blockCh db"
  "bounded n (SetMaxIdleConns i db) k = bounded n db k"
  by (simp_all add: SetMaxIdleConns_def follows_def bounded_def)

lemma timer_expire_effect:
  assumes "timer_expire i db = Done db'"
  shows "follows db db'" and "blockCh db' = blockCh db" and "bounded n db' k = bounded n db k"
proof -
  have "sem db' = sem db \<and> usageTimeout db' = usageTimeout db
        \<and> length (timers db') = length (timers db) \<and> blockCh db' = blockCh db"
  proof (cases "usageTimeoutCh db")
    case None
    with assms show ?thesis by (auto simp: timer_expire_def Let_def split: if_splits)
  next
    case (Some c)
    with assms show ?thesis
      by (auto simp: timer_expire_def Let_def bind_outcome_Done split: if_splits)
  qed
  then show "follows db db'" and "blockCh db' = blockCh db" and "bounded n db' k = bounded n db k"
    by (simp_all add: follows_def bounded_def)
qed

lemma timer_cancelled_effect:
  assumes "timer_cancelled i db = Done db'"
  shows "follows db db'" and "blockCh db' = blockCh db" and "bounded n db' k = bounded n db k"
proof -
  from assms have "sem db' = sem db \<and> usageTimeout db' = usageTimeout db
        \<and> length (timers db') = length (timers db) \<and> blockCh db' = blockCh db"
    by (auto simp: timer_cancelled_def split: if_splits option.splits)
  then show "follows db db'" and "blockCh db' = blockCh db" and "bounded n db' k = bounded n db k"
    by (simp_all add: follows_def bounded_def)
qed

lemma Stmt_Query_tx_effect:
  assumes "Stmt_Query stack \<lparr>Stmt_stmt = q, Stmt_db = Nil_db\<rparr> res db = Done (db', rows, err)"
  shows "db' = db"
    and "sum_list (map (\<lambda>c. holds (Rows_closed c) (Rows_release c)) (handed rows)) = 0"
proof -
  have "db' = db \<and> sum_list (map (\<lambda>c. holds (Rows_closed c) (Rows_release c)) (handed rows)) = 0"
  proof (cases "snd res")
    case None
    with assms show ?thesis
      by (auto simp: Stmt_Query_def Query_finish_def handed_def holds_dummy)
  next
    case (Some e)
    with assms show ?thesis
      by (auto simp: Stmt_Query_def Query_finish_def handed_def run_release_dummy)
  qed
  then show "db' = db"
    and "sum_list (map (\<lambda>c. holds (Rows_closed c) (Rows_release c)) (handed rows)) = 0"
    by simp_all
qed

lemma Stmt_QueryRow_tx_effect:
  assumes "Stmt_QueryRow stack \<lparr>Stmt_stmt = q, Stmt_db = Nil_db\<rparr> row db = Done (db', r)"
  shows "db' = db" and "holds (Row_closed r) (Row_release r) = 0"
  using assms by (auto simp: Stmt_QueryRow_def QueryRow_finish_def holds_dummy)

lemma Tx_Query_effect:
  assumes "Tx_Query t res = (t', rows, err)"
  shows "holds (Tx_closed t') (Tx_release t') = holds (Tx_closed t) (Tx_release t)"
    and "sum_list (map (\<lambda>c. holds (Rows_closed c) (Rows_release c)) (handed rows)) = 0"
  using assms by (auto simp: Tx_Query_def handed_def holds_dummy)

lemma Tx_QueryRow_effect:
  assumes "Tx_QueryRow t row = (t', r)"
  shows "holds (Tx_closed t') (Tx_release t') = holds (Tx_closed t) (Tx_release t)"
    and "holds (Row_closed r) (Row_release r) = 0"
  using assms by (auto simp: Tx_QueryRow_def holds_dummy)

lemma QueryRow_finish_holds:
  "holds (Row_closed (QueryRow_finish r row)) (Row_release (QueryRow_finish r row)) = holds False r"
  by (simp add: QueryRow_finish_def)

subsection \<open>Sums over the handles\<close>

lemma sum_split_at:
  fixes f :: "'a \<Rightarrow> nat"
  assumes "j < length xs"
  shows "\<exists>K. sum_list (map f xs) = K + f (xs ! j)
           \<and> (\<forall>y. sum_list (map f (xs[j := y])) = K + f y)
           \<and> sum_list (map f (remove_nth j xs)) = K"
proof -
  let ?K = "sum_list (map f (take j xs)) + sum_list (map f (drop (Suc j) xs))"
  have "xs = take j xs @ xs ! j # drop (Suc j) xs"
    using assms by (rule id_take_nth_drop)
  then have "sum_list (map f xs) = sum_list (map f (take j xs @ xs ! j # drop (Suc j) xs))"
    by simp
  then have 1: "sum_list (map f xs) = ?K + f (xs ! j)" by simp
  have 2: "sum_list (map f (xs[j := y])) = ?K + f y" for y
    using assms by (simp add: upd_conv_take_nth_drop)
  have 3: "sum_list (map f (remove_nth j xs)) = ?K" by (simp add: remove_nth_def)
  from 1 2 3 show ?thesis by blast
qed

subsection \<open>Every step keeps the count\<close>

lemma step_bounded:
  assumes st: "step a s = Done s'" and inv: "bounded n (pool s) (outstanding s)"
  shows "bounded n (pool s') (outstanding s')"
proof (cases a)
  case (A_conn stack)
  with st obtain db r where c: "conn stack (pool s) = Done (db, r)"
    and s': "s' = s\<lparr>pool := db, calls := calls s @ [r]\<rparr>"
    by (auto simp: bind_outcome_Done)
  from s' have "outstanding s' = outstanding s + holds False r"
    by (simp add: outstanding_def)
  with conn_effect(3)[OF c inv] s' show ?thesis by simp
next
  case A_take
  with st obtain db where c: "conn_take (pool s) = Done db"
    and s': "s' = s\<lparr>pool := db, taking := taking s + 1\<rparr>"
    by (auto simp: bind_outcome_Done)
  from s' have "outstanding s' = outstanding s + 1"
    by (simp add: outstanding_def)
  with conn_take_effect(4)[OF c inv] s' show ?thesis by simp
next
  case (A_report d stack)
  with st have t: "taking s \<noteq> 0" by (auto split: if_splits)
  with A_report st obtain db r where c: "conn_report d stack (pool s) = Done (db, r)"
    and s': "s' = s\<lparr>pool := db, taking := taking s - 1, calls := calls s @ [r]\<rparr>"
    by (auto simp: bind_outcome_Done)
  let ?X = "outstanding s - 1"
  from t have 1: "outstanding s = ?X + 1" by (simp add: outstanding_def)
  from s' t have 2: "outstanding s' = ?X + holds False r" by (simp add: outstanding_def)
  from inv 1 have "bounded n (pool s) (?X + 1)" by simp
  from conn_report_effect(2)[OF c this] 2 s' show ?thesis by simp
next
  case (A_return i)
  with st have i: "i < length (calls s)" by (auto split: if_splits)
  with A_return st obtain db u where c: "deferred (calls s ! i) () (pool s) = Done (db, u)"
    and s': "s' = s\<lparr>pool := db, calls := remove_nth i (calls s)\<rparr>"
    by (auto simp: bind_outcome_Done)
  from sum_split_at[OF i, of "holds False"] obtain K where
    K: "sum_list (map (holds False) (calls s)) = K + holds False (calls s ! i)"
       "sum_list (map (holds False) (remove_nth i (calls s))) = K" by blast
  let ?X = "outstanding s' "
  from K s' have 1: "outstanding s = ?X + holds False (calls s ! i)"
    by (simp add: outstanding_def)
  from inv 1 have "bounded n (pool s) (?X + holds False (calls s ! i))" by simp
  from deferred_effect(3)[OF c this] s' show ?thesis by simp
next
  case (A_query i res)
  with st have i: "i < length (calls s)" by (auto split: if_splits)
  with A_query st obtain db rows err where
    c: "Query_finish (calls s ! i) res (pool s) = Done (db, rows, err)"
    and s': "s' = s\<lparr>pool := db, calls := remove_nth i (calls s), cursors := cursors s @ handed rows\<rparr>"
    by (auto simp: bind_outcome_Done)
  from sum_split_at[OF i, of "holds False"] obtain K where
    K: "sum_list (map (holds False) (calls s)) = K + holds False (calls s ! i)"
       "sum_list (map (holds False) (remove_nth i (calls s))) = K" by blast
  let ?w' = "sum_list (map (\<lambda>c. holds (Rows_closed c) (Rows_release c)) (handed rows))"
  let ?X = "outstanding s - holds False (calls s ! i)"
  from K have 1: "outstanding s = ?X + holds False (calls s ! i)"
    by (simp add: outstanding_def)
  from K s' have 2: "outstanding s' = ?X + ?w'"
    by (simp add: outstanding_def)
  from inv 1 have "bounded n (pool s) (?X + holds False (calls s ! i))" by simp
  from Query_finish_effect(3)[OF c this] 2 s' show ?thesis by simp
next
  case (A_queryrow i row)
  with st have i: "i < length (calls s)" by (auto split: if_splits)
  with A_queryrow st have
    s': "s' = s\<lparr>calls := remove_nth i (calls s),
                 singles := singles s @ [QueryRow_finish (calls s ! i) row]\<rparr>"
    by auto
  from sum_split_at[OF i, of "holds False"] obtain K where
    K: "sum_list (map (holds False) (calls s)) = K + holds False (calls s ! i)"
       "sum_list (map (holds False) (remove_nth i (calls s))) = K" by blast
  from K s' have "outstanding s' = outstanding s"
    by (simp add: outstanding_def QueryRow_finish_holds)
  with inv s' show ?thesis by simp
next
  case (A_begin i res)
  with st have i: "i < length (calls s)" by (auto split: if_splits)
  with A_begin st obtain db tx err where
    c: "Begin_finish (calls s ! i) res (pool s) = Done (db, tx, err)"
    and s': "s' = s\<lparr>pool := db, calls := remove_nth i (calls s), txs := txs s @ handed tx\<rparr>"
    by (auto simp: bind_outcome_Done)
  from sum_split_at[OF i, of "holds False"] obtain K where
    K: "sum_list (map (holds False) (calls s)) = K + holds False (calls s ! i)"
       "sum_list (map (holds False) (remove_nth i (calls s))) = K" by blast
  let ?w' = "sum_list (map (\<lambda>t. holds (Tx_closed t) (Tx_release t)) (handed tx))"
  let ?X = "outstanding s - holds False (calls s ! i)"
  from K have 1: "outstanding s = ?X + holds False (calls s ! i)"
    by (simp add: outstanding_def)
  from K s' have 2: "outstanding s' = ?X + ?w'"
    by (simp add: outstanding_def)
  from inv 1 have "bounded n (pool s) (?X + holds False (calls s ! i))" by simp
  from Begin_finish_effect(3)[OF c this] 2 s' show ?thesis by simp
next
  case (A_next j nxt err)
  with st have j: "j < length (cursors s)" by (auto split: if_splits)
  with A_next st obtain c' db b where
    c: "Rows_Next (cursors s ! j) nxt err (pool s) = Done (c', db, b)"
    and s': "s' = s\<lparr>pool := db, cursors := (cursors s)[j := c']\<rparr>"
    by (auto simp: bind_outcome_Done)
  let ?f = "\<lambda>c. holds (Rows_closed c) (Rows_release c)"
  from sum_split_at[OF j, of ?f] obtain K where
    K: "sum_list (map ?f (cursors s)) = K + ?f (cursors s ! j)"
       "\<forall>y. sum_list (map ?f ((cursors s)[j := y])) = K + ?f y" by blast
  let ?X = "outstanding s - ?f (cursors s ! j)"
  from K have 1: "outstanding s = ?X + ?f (cursors s ! j)"
    by (simp add: outstanding_def)
  from K s' have 2: "outstanding s' = ?X + ?f c'"
    by (simp add: outstanding_def)
  from inv 1 have "bounded n (pool s) (?X + ?f (cursors s ! j))" by simp
  from Rows_Next_effect(3)[OF c this] 2 s' show ?thesis by simp
next
  case (A_close j err)
  with st have j: "j < length (cursors s)" by (auto split: if_splits)
  with A_close st obtain c' db b where
    c: "Rows_Close (cursors s ! j) err (pool s) = Done (c', db, b)"
    and s': "s' = s\<lparr>pool := db, cursors := (cursors s)[j := c']\<rparr>"
    by (auto simp: bind_outcome_Done)
  let ?f = "\<lambda>c. holds (Rows_closed c) (Rows_release c)"
  from sum_split_at[OF j, of ?f] obtain K where
    K: "sum_list (map ?f (cursors s)) = K + ?f (cursors s ! j)"
       "\<forall>y. sum_list (map ?f ((cursors s)[j := y])) = K + ?f y" by blast
  let ?X = "outstanding s - ?f (cursors s ! j)"
  from K have 1: "outstanding s = ?X + ?f (cursors s ! j)"
    by (simp add: outstanding_def)
  from K s' have 2: "outstanding s' = ?X + ?f c'"
    by (simp add: outstanding_def)
  from inv 1 have "bounded n (pool s) (?X + ?f (cursors s ! j))" by simp
  from Rows_Close_effect(3)[OF c this] 2 s' show ?thesis by simp
next
  case (A_scan j decoded)
  with st have j: "j < length (singles s)" by (auto split: if_splits)
  with A_scan st obtain c' db b where
    c: "Row_Scan (singles s ! j) decoded (pool s) = Done (c', db, b)"
    and s': "s' = s\<lparr>pool := db, singles := (singles s)[j := c']\<rparr>"
    by (auto simp: bind_outcome_Done)
  let ?f = "\<lambda>r. holds (Row_closed r) (Row_release r)"
  from sum_split_at[OF j, of ?f] obtain K where
    K: "sum_list (map ?f (singles s)) = K + ?f (singles s ! j)"
       "\<forall>y. sum_list (map ?f ((singles s)[j := y])) = K + ?f y" by blast
  let ?X = "outstanding s - ?f (singles s ! j)"
  from K have 1: "outstanding s = ?X + ?f (singles s ! j)"
    by (simp add: outstanding_def)
  from K s' have 2: "outstanding s' = ?X + ?f c'"
    by (simp add: outstanding_def)
  from inv 1 have "bounded n (pool s) (?X + ?f (singles s ! j))" by simp
  from Row_Scan_effect(3)[OF c this] 2 s' show ?thesis by simp
next
  case (A_commit j err)
  with st have j: "j < length (txs s)" by (auto split: if_splits)
  with A_commit st obtain c' db b where
    c: "Tx_Commit (txs s ! j) err (pool s) = Done (c', db, b)"
    and s': "s' = s\<lparr>pool := db, txs := (txs s)[j := c']\<rparr>"
    by (auto simp: bind_outcome_Done)
  let ?f = "\<lambda>t. holds (Tx_closed t) (Tx_release t)"
  from sum_split_at[OF j, of ?f] obtain K where
    K: "sum_list (map ?f (txs s)) = K + ?f (txs s ! j)"
       "\<forall>y. sum_list (map ?f ((txs s)[j := y])) = K + ?f y" by blast
  let ?X = "outstanding s - ?f (txs s ! j)"
  from K have 1: "outstanding s = ?X + ?f (txs s ! j)"
    by (simp add: outstanding_def)
  from K s' have 2: "outstanding s' = ?X + ?f c'"
    by (simp add: outstanding_def)
  from inv 1 have "bounded n (pool s) (?X + ?f (txs s ! j))" by simp
  from Tx_end_effect(3)[OF disjI1[OF c] this] 2 s' show ?thesis by simp
next
  case (A_rollback j err)
  with st have j: "j < length (txs s)" by (auto split: if_splits)
  with A_rollback st obtain c' db b where
    c: "Tx_Rollback (txs s ! j) err (pool s) = Done (c', db, b)"
    and s': "s' = s\<lparr>pool := db, txs := (txs s)[j := c']\<rparr>"
    by (auto simp: bind_outcome_Done)
  let ?f = "\<lambda>t. holds (Tx_closed t) (Tx_release t)"
  from sum_split_at[OF j, of ?f] obtain K where
    K: "sum_list (map ?f (txs s)) = K + ?f (txs s ! j)"
       "\<forall>y. sum_list (map ?f ((txs s)[j := y])) = K + ?f y" by blast
  let ?X = "outstanding s - ?f (txs s ! j)"
  from K have 1: "outstanding s = ?X + ?f (txs s ! j)"
    by (simp add: outstanding_def)
  from K s' have 2: "outstanding s' = ?X + ?f c'"
    by (simp add: outstanding_def)
  from inv 1 have "bounded n (pool s) (?X + ?f (txs s ! j))" by simp
  from Tx_end_effect(3)[OF disjI2[OF c] this] 2 s' show ?thesis by simp
next
  case (A_tx_query j res)
  with st have j: "j < length (txs s)" by (auto split: if_splits)
  obtain t' rows err where q: "Tx_Query (txs s ! j) res = (t', rows, err)"
    by (cases "Tx_Query (txs s ! j) res") auto
  with A_tx_query st j have
    s': "s' = s\<lparr>txs := (txs s)[j := t'], cursors := cursors s @ handed rows\<rparr>"
    by auto
  let ?f = "\<lambda>t. holds (Tx_closed t) (Tx_release t)"
  from sum_split_at[OF j, of ?f] obtain K where
    K: "sum_list (map ?f (txs s)) = K + ?f (txs s ! j)"
       "\<forall>y. sum_list (map ?f ((txs s)[j := y])) = K + ?f y" by blast
  from K s' Tx_Query_effect[OF q] have "outstanding s' = outstanding s"
    by (simp add: outstanding_def)
  with inv s' show ?thesis by simp
next
  case (A_tx_queryrow j row)
  with st have j: "j < length (txs s)" by (auto split: if_splits)
  obtain t' r where q: "Tx_QueryRow (txs s ! j) row = (t', r)"
    by (cases "Tx_QueryRow (txs s ! j) row") auto
  with A_tx_queryrow st j have
    s': "s' = s\<lparr>txs := (txs s)[j := t'], singles := singles s @ [r]\<rparr>"
    by auto
  let ?f = "\<lambda>t. holds (Tx_closed t) (Tx_release t)"
  from sum_split_at[OF j, of ?f] obtain K where
    K: "sum_list (map ?f (txs s)) = K + ?f (txs s ! j)"
       "\<forall>y. sum_list (map ?f ((txs s)[j := y])) = K + ?f y" by blast
  from K s' Tx_QueryRow_effect[OF q] have "outstanding s' = outstanding s"
    by (simp add: outstanding_def)
  with inv s' show ?thesis by simp
next
  case (A_tx_stmt_query stack q res)
  with st obtain db rows err where
    c: "Stmt_Query stack \<lparr>Stmt_stmt = q, Stmt_db = Nil_db\<rparr> res (pool s) = Done (db, rows, err)"
    and s': "s' = s\<lparr>pool := db, cursors := cursors s @ handed rows\<rparr>"
    by (auto simp: bind_outcome_Done)
  from s' Stmt_Query_tx_effect[OF c] have "outstanding s' = outstanding s" "pool s' = pool s"
    by (simp_all add: outstanding_def)
  with inv show ?thesis by simp
next
  case (A_tx_stmt_queryrow stack q row)
  with st obtain db r where
    c: "Stmt_QueryRow stack \<lparr>Stmt_stmt = q, Stmt_db = Nil_db\<rparr> row (pool s) = Done (db, r)"
    and s': "s' = s\<lparr>pool := db, singles := singles s @ [r]\<rparr>"
    by (auto simp: bind_outcome_Done)
  from s' Stmt_QueryRow_tx_effect[OF c] have "outstanding s' = outstanding s" "pool s' = pool s"
    by (simp_all add: outstanding_def)
  with inv show ?thesis by simp
next
  case (A_set_block c)
  with st obtain db where c: "SetBlockDurationCh c (pool s) = Done db"
    and s': "s' = s\<lparr>pool := db\<rparr>"
    by (auto simp: bind_outcome_Done)
  from s' have "outstanding s' = outstanding s" by (simp add: outstanding_def)
  with inv s' SetBlockDurationCh_effect(2)[OF c] show ?thesis by simp
next
  case (A_set_usage c d)
  with st have s': "s' = s\<lparr>pool := SetUsageTimeout c d (pool s)\<rparr>" by simp
  then have "outstanding s' = outstanding s" by (simp add: outstanding_def)
  with inv s' show ?thesis by (simp add: SetUsageTimeout_effect)
next
  case (A_set_idle i)
  with st have s': "s' = s\<lparr>pool := SetMaxIdleConns i (pool s)\<rparr>" by simp
  then have "outstanding s' = outstanding s" by (simp add: outstanding_def)
  with inv s' show ?thesis by (simp add: SetMaxIdleConns_effect)
next
  case (A_expire i)
  with st obtain db where c: "timer_expire i (pool s) = Done db"
    and s': "s' = s\<lparr>pool := db\<rparr>"
    by (auto simp: bind_outcome_Done)
  from s' have "outstanding s' = outstanding s" by (simp add: outstanding_def)
  with inv s' timer_expire_effect(3)[OF c] show ?thesis by simp
next
  case (A_cancelled i)
  with st obtain db where c: "timer_cancelled i (pool s) = Done db"
    and s': "s' = s\<lparr>pool := db\<rparr>"
    by (auto simp: bind_outcome_Done)
  from s' have "outstanding s' = outstanding s" by (simp add: outstanding_def)
  with inv s' timer_cancelled_effect(3)[OF c] show ?thesis by simp
qed

lemma step_pool:
  assumes st: "step a s = Done s'"
  shows "(\<forall>c d. a \<noteq> A_set_usage c d) \<longrightarrow> follows (pool s) (pool s')"
    and "\<not> waits a \<and> \<not> sets_block a \<longrightarrow> blockCh (pool s') = blockCh (pool s)"
    and "waits a \<longrightarrow> sem (pool s) \<noteq> None \<or> taking s \<noteq> 0"
    and "\<not> waits a \<longrightarrow> taking s' = taking s"
proof -
  have "((\<forall>c d. a \<noteq> A_set_usage c d) \<longrightarrow> follows (pool s) (pool s'))
      \<and> (\<not> waits a \<and> \<not> sets_block a \<longrightarrow> blockCh (pool s') = blockCh (pool s))
      \<and> (waits a \<longrightarrow> sem (pool s) \<noteq> None \<or> taking s \<noteq> 0)
      \<and> (\<not> waits a \<longrightarrow> taking s' = taking s)"
  proof (cases a)
    case (A_conn stack)
    with st obtain db r where c: "conn stack (pool s) = Done (db, r)"
      and s': "s' = s\<lparr>pool := db, calls := calls s @ [r]\<rparr>"
      by (auto simp: bind_outcome_Done)
    from conn_effect(1,2)[OF c] s' A_conn show ?thesis by simp
  next
    case A_take
    with st obtain db where c: "conn_take (pool s) = Done db"
      and s': "s' = s\<lparr>pool := db, taking := taking s + 1\<rparr>"
      by (auto simp: bind_outcome_Done)
    from conn_take_effect(1,3)[OF c] s' A_take show ?thesis by simp
  next
    case (A_report d stack)
    with st have t: "taking s \<noteq> 0" by (auto split: if_splits)
    with A_report st obtain db r where c: "conn_report d stack (pool s) = Done (db, r)"
      and s': "s' = s\<lparr>pool := db, taking := taking s - 1, calls := calls s @ [r]\<rparr>"
      by (auto simp: bind_outcome_Done)
    from conn_report_effect(1)[OF c] s' A_report t show ?thesis by simp
  next
    case (A_return i)
    with st have i: "i < length (calls s)" by (auto split: if_splits)
    with A_return st obtain db u where c: "deferred (calls s ! i) () (pool s) = Done (db, u)"
      and s': "s' = s\<lparr>pool := db, calls := remove_nth i (calls s)\<rparr>"
      by (auto simp: bind_outcome_Done)
    from deferred_effect(1,2)[OF c] s' A_return show ?thesis by simp
  next
    case (A_query i res)
    with st have i: "i < length (calls s)" by (auto split: if_splits)
    with A_query st obtain db rows err where
      c: "Query_finish (calls s ! i) res (pool s) = Done (db, rows, err)"
      and s': "s' = s\<lparr>pool := db, calls := remove_nth i (calls s), cursors := cursors s @ handed rows\<rparr>"
      by (auto simp: bind_outcome_Done)
    from Query_finish_effect(1,2)[OF c] s' A_query show ?thesis by simp
  next
    case (A_queryrow i row)
    with st show ?thesis by (auto simp: follows_refl split: if_splits)
  next
    case (A_begin i res)
    with st have i: "i < length (calls s)" by (auto split: if_splits)
    with A_begin st obtain db tx err where
      c: "Begin_finish (calls s ! i) res (pool s) = Done (db, tx, err)"
      and s': "s' = s\<lparr>pool := db, calls := remove_nth i (calls s), txs := txs s @ handed tx\<rparr>"
      by (auto simp: bind_outcome_Done)
    from Begin_finish_effect(1,2)[OF c] s' A_begin show ?thesis by simp
  next
    case (A_next j nxt err)
    with st have j: "j < length (cursors s)" by (auto split: if_splits)
    with A_next st obtain c' db b where
      c: "Rows_Next (cursors s ! j) nxt err (pool s) = Done (c', db, b)"
      and s': "s' = s\<lparr>pool := db, cursors := (cursors s)[j := c']\<rparr>"
      by (auto simp: bind_outcome_Done)
    from Rows_Next_effect(1,2)[OF c] s' A_next show ?thesis by simp
  next
    case (A_close j err)
    with st have j: "j < length (cursors s)" by (auto split: if_splits)
    with A_close st obtain c' db b where
      c: "Rows_Close (cursors s ! j) err (pool s) = Done (c', db, b)"
      and s': "s' = s\<lparr>pool := db, cursors := (cursors s)[j := c']\<rparr>"
      by (auto simp: bind_outcome_Done)
    from Rows_Close_effect(1,2)[OF c] s' A_close show ?thesis by simp
  next
    case (A_scan j decoded)
    with st have j: "j < length (singles s)" by (auto split: if_splits)
    with A_scan st obtain c' db b where
      c: "Row_Scan (singles s ! j) decoded (pool s) = Done (c', db, b)"
      and s': "s' = s\<lparr>pool := db, singles := (singles s)[j := c']\<rparr>"
      by (auto simp: bind_outcome_Done)
    from Row_Scan_effect(1,2)[OF c] s' A_scan show ?thesis by simp
  next
    case (A_commit j err)
    with st have j: "j < length (txs s)" by (auto split: if_splits)
    with A_commit st obtain c' db b where
      c: "Tx_Commit (txs s ! j) err (pool s) = Done (c', db, b)"
      and s': "s' = s\<lparr>pool := db, txs := (txs s)[j := c']\<rparr>"
      by (auto simp: bind_outcome_Done)
    from Tx_end_effect(1,2)[OF disjI1[OF c]] s' A_commit show ?thesis by simp
  next
    case (A_rollback j err)
    with st have j: "j < length (txs s)" by (auto split: if_splits)
    with A_rollback st obtain c' db b where
      c: "Tx_Rollback (txs s ! j) err (pool s) = Done (c', db, b)"
      and s': "s' = s\<lparr>pool := db, txs := (txs s)[j := c']\<rparr>"
      by (auto simp: bind_outcome_Done)
    from Tx_end_effect(1,2)[OF disjI2[OF c]] s' A_rollback show ?thesis by simp
  next
    case (A_tx_query j res)
    with st show ?thesis by (auto simp: follows_refl split: if_splits prod.splits)
  next
    case (A_tx_queryrow j row)
    with st show ?thesis by (auto simp: follows_refl split: if_splits prod.splits)
  next
    case (A_tx_stmt_query stack q res)
    with st obtain db rows err where
      c: "Stmt_Query stack \<lparr>Stmt_stmt = q, Stmt_db = Nil_db\<rparr> res (pool s) = Done (db, rows, err)"
      and s': "s' = s\<lparr>pool := db, cursors := cursors s @ handed rows\<rparr>"
      by (auto simp: bind_outcome_Done)
    from Stmt_Query_tx_effect(1)[OF c] s' A_tx_stmt_query show ?thesis
      by (simp add: follows_refl)
  next
    case (A_tx_stmt_queryrow stack q row)
    with st obtain db r where
      c: "Stmt_QueryRow stack \<lparr>Stmt_stmt = q, Stmt_db = Nil_db\<rparr> row (pool s) = Done (db, r)"
      and s': "s' = s\<lparr>pool := db, singles := singles s @ [r]\<rparr>"
      by (auto simp: bind_outcome_Done)
    from Stmt_QueryRow_tx_effect(1)[OF c] s' A_tx_stmt_queryrow show ?thesis
      by (simp add: follows_refl)
  next
    case (A_set_block c)
    with st obtain db where c: "SetBlockDurationCh c (pool s) = Done db"
      and s': "s' = s\<lparr>pool := db\<rparr>"
      by (auto simp: bind_outcome_Done)
    from SetBlockDurationCh_effect(1)[OF c] s' A_set_block show ?thesis by simp
  next
    case (A_set_usage c d)
    with st have "s' = s\<lparr>pool := SetUsageTimeout c d (pool s)\<rparr>" by simp
    with A_set_usage show ?thesis by (simp add: SetUsageTimeout_effect)
  next
    case (A_set_idle i)
    with st show ?thesis by (auto simp: SetMaxIdleConns_effect)
  next
    case (A_expire i)
    with st obtain db where c: "timer_expire i (pool s) = Done db"
      and s': "s' = s\<lparr>pool := db\<rparr>"
      by (auto simp: bind_outcome_Done)
    from timer_expire_effect(1,2)[OF c] s' A_expire show ?thesis by simp
  next
    case (A_cancelled i)
    with st obtain db where c: "timer_cancelled i (pool s) = Done db"
      and s': "s' = s\<lparr>pool := db\<rparr>"
      by (auto simp: bind_outcome_Done)
    from timer_cancelled_effect(1,2)[OF c] s' A_cancelled show ?thesis by simp
  qed
  then show "(\<forall>c d. a \<noteq> A_set_usage c d) \<longrightarrow> follows (pool s) (pool s')"
    and "\<not> waits a \<and> \<not> sets_block a \<longrightarrow> blockCh (pool s') = blockCh (pool s)"
    and "waits a \<longrightarrow> sem (pool s) \<noteq> None \<or> taking s \<noteq> 0"
    and "\<not> waits a \<longrightarrow> taking s' = taking s"
    by simp_all
qed

lemma step_mode:
  assumes "step a s = Done s'"
  shows "(sem (pool s') = None) = (sem (pool s) = None)"
proof (cases "\<exists>c d. a = A_set_usage c d")
  case True
  with assms show ?thesis by (auto simp: SetUsageTimeout_effect)
next
  case False
  with step_pool(1)[OF assms] show ?thesis by (simp add: follows_def)
qed

lemma step_idle:
  assumes "step a s = Done s'" and "\<not> arms_timeout a" and "usageTimeout (pool s) = 0"
  shows "usageTimeout (pool s') = 0 \<and> length (timers (pool s')) = length (timers (pool s))"
proof (cases "\<exists>c d. a = A_set_usage c d")
  case True
  then obtain c d where a: "a = A_set_usage c d" by blast
  with assms(2) have "c = None" by simp
  with a assms(1) show ?thesis by (auto simp: SetUsageTimeout_effect)
next
  case False
  with step_pool(1)[OF assms(1)] assms(3) show ?thesis by (simp add: follows_def)
qed

lemma exec_bounded:
  "exec as s = Done s' \<Longrightarrow> bounded n (pool s) (outstanding s) \<Longrightarrow>
   bounded n (pool s') (outstanding s')"
proof (induction as arbitrary: s)
  case Nil
  then show ?case by simp
next
  case (Cons a as)
  from Cons.prems(1) obtain m where m: "step a s = Done m" "exec as m = Done s'"
    by (auto simp: bind_outcome_Done)
  from step_bounded[OF m(1) Cons.prems(2)] Cons.IH[OF m(2)] show ?case by simp
qed

lemma exec_mode:
  "exec as s = Done s' \<Longrightarrow> (sem (pool s') = None) = (sem (pool s) = None)"
proof (induction as arbitrary: s)
  case Nil
  then show ?case by simp
next
  case (Cons a as)
  from Cons.prems(1) obtain m where m: "step a s = Done m" "exec as m = Done s'"
    by (auto simp: bind_outcome_Done)
  from step_mode[OF m(1)] Cons.IH[OF m(2)] show ?case by simp
qed

lemma exec_idle:
  "exec as s = Done s' \<Longrightarrow> \<not> list_ex arms_timeout as \<Longrightarrow> usageTimeout (pool s) = 0 \<Longrightarrow>
   usageTimeout (pool s') = 0 \<and> length (timers (pool s')) = length (timers (pool s))"
proof (induction as arbitrary: s)
  case Nil
  then show ?case by simp
next
  case (Cons a as)
  from Cons.prems(1) obtain m where m: "step a s = Done m" "exec as m = Done s'"
    by (auto simp: bind_outcome_Done)
  from Cons.prems(2) have n: "\<not> arms_timeout a" "\<not> list_ex arms_timeout as" by simp_all
  from step_idle[OF m(1) n(1) Cons.prems(3)] Cons.IH[OF m(2) n(2)] show ?case by simp
qed

lemma exec_unlimited:
  "exec as s = Done s' \<Longrightarrow> sem (pool s) = None \<Longrightarrow> taking s = 0 \<Longrightarrow>
   \<not> list_ex waits as \<and> taking s' = 0
   \<and> (\<not> list_ex sets_block as \<longrightarrow> blockCh (pool s') = blockCh (pool s))"
proof (induction as arbitrary: s)
  case Nil
  then show ?case by simp
next
  case (Cons a as)
  from Cons.prems(1) obtain m where m: "step a s = Done m" "exec as m = Done s'"
    by (auto simp: bind_outcome_Done)
  from step_pool(3)[OF m(1)] Cons.prems(2,3) have w: "\<not> waits a" by blast
  with step_pool(4)[OF m(1)] Cons.prems(3) have t: "taking m = 0" by simp
  from step_mode[OF m(1)] Cons.prems(2) have u: "sem (pool m) = None" by simp
  from Cons.IH[OF m(2) u t] w step_pool(2)[OF m(1)] show ?case by auto
qed

subsection \<open>Usage timeout switched off\<close>

lemma outstanding_init: "outstanding (init db) = 0" "pool (init db) = db" "taking (init db) = 0"
  by (simp_all add: outstanding_def init_def)

text \<open>
  C9. \<open>SetUsageTimeout\<close> with a nil channel stores a zero timeout whatever duration it
  is given. From then on, through any steps of the clients of the pool that do not call
  \<open>SetUsageTimeout\<close> with a channel, the timeout stays zero and the number of timers
  started stays what it was; in the state reached \<open>conn()\<close>, on its direct path and on
  the path that waited, returns a closure with no timer and leaves the timers as they are.
\<close>

theorem nil_channel_disables_usage_timeout:
  assumes "exec as (s\<lparr>pool := SetUsageTimeout None d (pool s)\<rparr>) = Done s'"
    and "\<not> list_ex arms_timeout as"
  shows "usageTimeout (SetUsageTimeout None d (pool s)) = 0
       \<and> usageTimeoutCh (SetUsageTimeout None d (pool s)) = None
       \<and> usageTimeout (pool s') = 0
       \<and> length (timers (pool s')) = length (timers (pool s))
       \<and> (\<forall>stack db' r. conn stack (pool s') = Done (db', r) \<longrightarrow>
             rel_timer r = None \<and> timers db' = timers (pool s'))
       \<and> (\<forall>w stack db' r. conn_report w stack (pool s') = Done (db', r) \<longrightarrow>
             rel_timer r = None \<and> timers db' = timers (pool s'))"
proof -
  let ?s0 = "s\<lparr>pool := SetUsageTimeout None d (pool s)\<rparr>"
  have z: "usageTimeout (pool ?s0) = 0" by (simp add: SetUsageTimeout_effect)
  from exec_idle[OF assms(1,2) z]
  have i: "usageTimeout (pool s') = 0" "length (timers (pool s')) = length (timers (pool s))"
    by (simp_all add: SetUsageTimeout_effect)
  have "\<forall>stack db' r. conn stack (pool s') = Done (db', r) \<longrightarrow>
             rel_timer r = None \<and> timers db' = timers (pool s')"
    using conn_effect(5) i(1) by blast
  moreover have "\<forall>w stack db' r. conn_report w stack (pool s') = Done (db', r) \<longrightarrow>
             rel_timer r = None \<and> timers db' = timers (pool s')"
    using conn_report_effect(3) i(1) by blast
  ultimately show ?thesis using i by (simp add: SetUsageTimeout_effect)
qed

lemma exec_example_disabled:
  "exec [A_conn ''main'', A_set_usage None 3]
     (init watched_pool\<lparr>pool := SetUsageTimeout None 9 (pool (init watched_pool))\<rparr>)
     = Done \<lparr>pool = unlimited_pool, taking = 0, calls = [dummyRelease],
             cursors = [], singles = [], txs = []\<rparr>"
  by (simp add: init_def conn_def conn_usage_def unlimited_pool_def dummyRelease_def
      watched_pool_def SetUsageTimeout_def)

theorem nil_channel_disables_usage_timeout_witness:
  "usageTimeout watched_pool = 5
   \<and> exec [A_conn ''main'', A_set_usage None 3]
       (init watched_pool\<lparr>pool := SetUsageTimeout None 9 (pool (init watched_pool))\<rparr>)
       = Done \<lparr>pool = unlimited_pool, taking = 0, calls = [dummyRelease],
               cursors = [], singles = [], txs = []\<rparr>
   \<and> \<not> list_ex arms_timeout [A_conn ''main'', A_set_usage None 3]
   \<and> usageTimeout (SetUsageTimeout None 9 watched_pool) = 0
   \<and> conn ''later'' unlimited_pool = Done (unlimited_pool, dummyRelease)"
proof -
  have n: "\<not> list_ex arms_timeout [A_conn ''main'', A_set_usage None 3]" by simp
  have c: "conn ''later'' unlimited_pool = Done (unlimited_pool, dummyRelease)"
    by (simp add: conn_def conn_usage_def unlimited_pool_def dummyRelease_def)
  have w: "usageTimeout watched_pool = 5"
    by (simp add: watched_pool_def SetUsageTimeout_def unlimited_pool_def)
  from nil_channel_disables_usage_timeout[OF exec_example_disabled n]
  have "usageTimeout (SetUsageTimeout None 9 (pool (init watched_pool))) = 0"
    by (rule conjunct1)
  with n c w exec_example_disabled show ?thesis by (simp add: init_def)
qed

subsection \<open>A pool with a usage timeout\<close>

lemma run_release_unlocked:
  "\<not> rel_lock r \<Longrightarrow> run_release r d = cancelUsageTimeout (rel_timer r) d"
  by (simp add: run_release_def releaseLock_def)

lemma conn_watched: "conn ''main'' watched_pool = Done (armed_pool, timer_release)"
  by (simp add: conn_def conn_usage_def watched_pool_def armed_pool_def timer_release_def
      unlimited_pool_def SetUsageTimeout_def)

subsection \<open>The pool with its mutexes\<close>

lemma conn_by_parts:
  "conn stack db = bind_outcome (conn_sem db) (\<lambda>(db1, l). Done (conn_usage stack l db1))"
  by (simp add: conn_def conn_sem_def split: option.splits)

lemma conn_report_by_parts:
  "conn_report d stack db = bind_outcome (report d db) (\<lambda>db1. Done (conn_usage stack True db1))"
  by (cases "blockCh db"; cases "send d (the (blockCh db))")
     (simp_all add: conn_report_def report_def)

lemma conn_sem_unlimited: "sem db = None \<Longrightarrow> conn_sem db = Done (db, False)"
  by (simp add: conn_sem_def)

lemma conn_sem_effect:
  assumes "conn_sem db = Done (db', l)"
  shows "follows db db'"
    and "blockCh db' = blockCh db"
    and "l = (sem db \<noteq> None)"
    and "bounded n db k \<Longrightarrow> bounded n db' (k + 1)"
proof -
  have "follows db db' \<and> blockCh db' = blockCh db \<and> l = (sem db \<noteq> None)
        \<and> (bounded n db k \<longrightarrow> bounded n db' (k + 1))"
  proof (cases "sem db")
    case None
    with assms show ?thesis by (simp add: conn_sem_def follows_refl bounded_def)
  next
    case (Some ch)
    show ?thesis
    proof (cases "ch_buf ch")
      case Nil
      show ?thesis
      proof (cases "ch_closed ch")
        case False
        with assms Some Nil show ?thesis by (simp add: conn_sem_def recv_def)
      next
        case True
        with assms Some Nil have "db' = db\<lparr>sem := Some ch\<rparr>" "l"
          by (simp_all add: conn_sem_def recv_def)
        then show ?thesis using Some True by (simp add: follows_def bounded_def)
      qed
    next
      case (Cons t ts)
      with assms Some have "db' = db\<lparr>sem := Some (ch\<lparr>ch_buf := ts\<rparr>)\<rparr>" "l"
        by (simp_all add: conn_sem_def recv_def)
      then show ?thesis using Some Cons by (simp add: follows_def bounded_def)
    qed
  qed
  then show "follows db db'" and "blockCh db' = blockCh db" and "l = (sem db \<noteq> None)"
    and "bounded n db k \<Longrightarrow> bounded n db' (k + 1)" by simp_all
qed

lemma report_effect:
  assumes "report d db = Done db'"
  shows "follows db db'" and "bounded n db' k = bounded n db k"
proof -
  have "sem db' = sem db \<and> usageTimeout db' = usageTimeout db \<and> timers db' = timers db"
  proof (cases "blockCh db")
    case None
    with assms show ?thesis by (simp add: report_def)
  next
    case (Some bc)
    with assms show ?thesis by (auto simp: report_def bind_outcome_Done)
  qed
  then show "follows db db'" and "bounded n db' k = bounded n db k"
    by (simp_all add: follows_def bounded_def)
qed

lemma takes_no_lock_cases:
  "takes_no_lock a \<Longrightarrow> \<not> waits a \<and> \<not> sets_block a \<and> (\<forall>c d. a \<noteq> A_set_usage c d)"
  by (cases a) simp_all

lemma settled_linit: "settled (linit db)"
  by (simp add: settled_def linit_def free_mutex_def init_def)

lemma RLock_Done: "RLock m = Done m' \<Longrightarrow>
    \<not> mux_writer m \<and> mux_pending m = 0 \<and> m' = m\<lparr>mux_readers := mux_readers m + 1\<rparr>"
  by (simp add: RLock_def split: if_splits)

lemma RUnlock_Done: "RUnlock m = Done m' \<Longrightarrow>
    0 < mux_readers m \<and> m' = m\<lparr>mux_readers := mux_readers m - 1\<rparr>"
  by (simp add: RUnlock_def split: if_splits)

lemma Lock_run_Done:
  "Lock_enter m = Done m1 \<Longrightarrow> Unlock m1 = Done m2 \<Longrightarrow>
   mux_readers m = 0 \<and> 0 < mux_pending m \<and> m2 = m\<lparr>mux_pending := mux_pending m - 1\<rparr>"
  by (auto simp: Lock_enter_def Unlock_def split: if_splits)

lemma RLock_RUnlock:
  "RLock m = Done m1 \<Longrightarrow> RUnlock m1 = Done m"
  by (auto simp: RLock_def RUnlock_def split: if_splits)

lemma lstep_settled:
  assumes st: "lstep a t = Done t'" and inv: "settled t"
  shows "settled t'"
proof (cases a)
  case (L_do x)
  with st have n: "takes_no_lock x" by (auto split: if_splits)
  with L_do st obtain s where s: "step x (base t) = Done s" and t': "t' = t\<lparr>base := s\<rparr>"
    by (auto simp: bind_outcome_Done)
  from step_pool(4)[OF s] takes_no_lock_cases[OF n] have "taking s = taking (base t)" by simp
  with inv t' show ?thesis by (simp add: settled_def)
next
  case L_conn_sem
  with st obtain db l where
    t': "t' = t\<lparr>base := (base t)\<lparr>pool := db, taking := taking (base t) + (if l then 1 else 0)\<rparr>,
                at_usage := at_usage t @ [l]\<rparr>"
    by (auto simp: bind_outcome_Done)
  with inv show ?thesis by (simp add: settled_def)
next
  case L_take
  with st obtain db where
    t': "t' = t\<lparr>base := (base t)\<lparr>pool := db, taking := taking (base t) + 1\<rparr>,
                received := received t + 1\<rparr>"
    by (auto simp: bind_outcome_Done)
  with inv show ?thesis by (simp add: settled_def)
next
  case L_report_begin
  with st have r: "received t \<noteq> 0" by (auto split: if_splits)
  with L_report_begin st obtain m where m: "RLock (blockChMux t) = Done m"
    and t': "t' = t\<lparr>blockChMux := m, received := received t - 1\<rparr>"
    by (auto simp: bind_outcome_Done)
  from RLock_Done[OF m] inv r t' show ?thesis by (simp add: settled_def)
next
  case (L_report_end d)
  with st have r: "mux_readers (blockChMux t) \<noteq> 0" by (auto split: if_splits)
  with L_report_end st obtain db m where m: "RUnlock (blockChMux t) = Done m"
    and t': "t' = t\<lparr>base := (base t)\<lparr>pool := db\<rparr>, blockChMux := m,
                     at_usage := at_usage t @ [True]\<rparr>"
    by (auto simp: bind_outcome_Done)
  from RUnlock_Done[OF m] inv r t' show ?thesis by (simp add: settled_def)
next
  case (L_conn_usage j stack)
  with st have j: "j < length (at_usage t)" by (auto split: if_splits)
  obtain db r where cu: "conn_usage stack (at_usage t ! j) (pool (base t)) = (db, r)"
    by (cases "conn_usage stack (at_usage t ! j) (pool (base t))")
  with L_conn_usage st j obtain m m' where m: "RLock (usageTimeoutMux t) = Done m"
    "RUnlock m = Done m'"
    and t': "t' = t\<lparr>base := (base t)\<lparr>pool := db,
                          taking := taking (base t) - (if at_usage t ! j then 1 else 0),
                          calls := calls (base t) @ [r]\<rparr>,
                    usageTimeoutMux := m', at_usage := remove_nth j (at_usage t)\<rparr>"
    by (auto simp: bind_outcome_Done)
  from m RLock_RUnlock[OF m(1)] have m': "m' = usageTimeoutMux t" by simp
  let ?f = "\<lambda>l::bool. if l then 1 else (0::nat)"
  from sum_split_at[OF j, of ?f] obtain K where
    K: "sum_list (map ?f (at_usage t)) = K + ?f (at_usage t ! j)"
       "sum_list (map ?f (remove_nth j (at_usage t))) = K" by blast
  from inv K t' m' show ?thesis by (simp add: settled_def)
next
  case (L_expire_begin i)
  with st obtain m where m: "RLock (usageTimeoutMux t) = Done m"
    and t': "t' = t\<lparr>usageTimeoutMux := m, expiring := expiring t @ [i]\<rparr>"
    by (auto simp: bind_outcome_Done split: if_splits)
  from RLock_Done[OF m] inv t' show ?thesis by (simp add: settled_def)
next
  case (L_expire_end i)
  with st have i: "i \<in> set (expiring t)" by (auto split: if_splits)
  with L_expire_end st obtain db m where m: "RUnlock (usageTimeoutMux t) = Done m"
    and t': "t' = t\<lparr>base := (base t)\<lparr>pool := db\<rparr>, usageTimeoutMux := m,
                    expiring := remove1 i (expiring t)\<rparr>"
    by (auto simp: bind_outcome_Done)
  from RUnlock_Done[OF m] inv t' i show ?thesis
    by (simp add: settled_def length_remove1)
next
  case (L_cancelled i)
  with st obtain db where t': "t' = t\<lparr>base := (base t)\<lparr>pool := db\<rparr>\<rparr>"
    by (auto simp: bind_outcome_Done split: if_splits)
  with inv show ?thesis by (simp add: settled_def)
next
  case L_set_usage_call
  with st have "t' = t\<lparr>usageTimeoutMux := Lock_call (usageTimeoutMux t)\<rparr>" by simp
  with inv show ?thesis by (simp add: settled_def Lock_call_def)
next
  case (L_set_usage_run c d)
  with st obtain m m' where m: "Lock_enter (usageTimeoutMux t) = Done m" "Unlock m = Done m'"
    and t': "t' = t\<lparr>base := (base t)\<lparr>pool := SetUsageTimeout c d (pool (base t))\<rparr>,
                    usageTimeoutMux := m'\<rparr>"
    by (auto simp: bind_outcome_Done)
  from Lock_run_Done[OF m] inv t' show ?thesis by (simp add: settled_def)
next
  case L_set_block_call
  with st have "t' = t\<lparr>blockChMux := Lock_call (blockChMux t)\<rparr>" by simp
  with inv show ?thesis by (simp add: settled_def Lock_call_def)
next
  case (L_set_block_run c)
  with st obtain m db m' where m: "Lock_enter (blockChMux t) = Done m" "Unlock m = Done m'"
    and t': "t' = t\<lparr>base := (base t)\<lparr>pool := db\<rparr>, blockChMux := m'\<rparr>"
    by (auto simp: bind_outcome_Done)
  from Lock_run_Done[OF m] inv t' show ?thesis by (simp add: settled_def)
qed

lemma lstep_bounded:
  assumes st: "lstep a t = Done t'" and ok: "settled t"
    and inv: "bounded n (pool (base t)) (outstanding (base t))"
  shows "bounded n (pool (base t')) (outstanding (base t'))"
proof (cases a)
  case (L_do x)
  with st obtain s where s: "step x (base t) = Done s" and t': "t' = t\<lparr>base := s\<rparr>"
    by (auto simp: bind_outcome_Done split: if_splits)
  from step_bounded[OF s inv] t' show ?thesis by simp
next
  case L_conn_sem
  with st obtain db l where c: "conn_sem (pool (base t)) = Done (db, l)"
    and t': "t' = t\<lparr>base := (base t)\<lparr>pool := db, taking := taking (base t) + (if l then 1 else 0)\<rparr>,
                at_usage := at_usage t @ [l]\<rparr>"
    by (auto simp: bind_outcome_Done)
  from inv have "sem (pool (base t)) \<noteq> None"
    by (auto simp: bounded_def split: option.splits)
  with conn_sem_effect(3)[OF c] have l by simp
  with t' have "outstanding (base t') = outstanding (base t) + 1" by (simp add: outstanding_def)
  with conn_sem_effect(4)[OF c inv] t' show ?thesis by simp
next
  case L_take
  with st obtain db where c: "conn_take (pool (base t)) = Done db"
    and t': "t' = t\<lparr>base := (base t)\<lparr>pool := db, taking := taking (base t) + 1\<rparr>,
                received := received t + 1\<rparr>"
    by (auto simp: bind_outcome_Done)
  from t' have "outstanding (base t') = outstanding (base t) + 1" by (simp add: outstanding_def)
  with conn_take_effect(4)[OF c inv] t' show ?thesis by simp
next
  case L_report_begin
  with st have "base t' = base t" by (auto simp: bind_outcome_Done split: if_splits)
  with inv show ?thesis by simp
next
  case (L_report_end d)
  with st obtain db m where c: "report d (pool (base t)) = Done db"
    and t': "t' = t\<lparr>base := (base t)\<lparr>pool := db\<rparr>, blockChMux := m,
                     at_usage := at_usage t @ [True]\<rparr>"
    by (auto simp: bind_outcome_Done split: if_splits)
  from t' have "outstanding (base t') = outstanding (base t)" by (simp add: outstanding_def)
  with report_effect(2)[OF c] inv t' show ?thesis by simp
next
  case (L_conn_usage j stack)
  with st have j: "j < length (at_usage t)" by (auto split: if_splits)
  obtain db r where cu: "conn_usage stack (at_usage t ! j) (pool (base t)) = (db, r)"
    by (cases "conn_usage stack (at_usage t ! j) (pool (base t))")
  with L_conn_usage st j obtain m' where
    t': "t' = t\<lparr>base := (base t)\<lparr>pool := db,
                          taking := taking (base t) - (if at_usage t ! j then 1 else 0),
                          calls := calls (base t) @ [r]\<rparr>,
                    usageTimeoutMux := m', at_usage := remove_nth j (at_usage t)\<rparr>"
    by (auto simp: bind_outcome_Done)
  from cu have e: "db = fst (conn_usage stack (at_usage t ! j) (pool (base t)))"
    "r = snd (conn_usage stack (at_usage t ! j) (pool (base t)))" by simp_all
  then have l: "rel_lock r = at_usage t ! j" by (simp add: conn_usage_frame)
  let ?f = "\<lambda>l::bool. if l then 1 else (0::nat)"
  from sum_split_at[OF j, of ?f] obtain K where
    "sum_list (map ?f (at_usage t)) = K + ?f (at_usage t ! j)" by blast
  with ok have "?f (at_usage t ! j) \<le> taking (base t)" by (simp add: settled_def)
  with t' l have "outstanding (base t') = outstanding (base t)"
    by (simp add: outstanding_def holds_def)
  moreover have "bounded n db (outstanding (base t))"
    using inv unfolding e by (simp add: conn_usage_effect)
  ultimately show ?thesis using t' by simp
next
  case (L_expire_begin i)
  with st have "base t' = base t" by (auto simp: bind_outcome_Done split: if_splits)
  with inv show ?thesis by simp
next
  case (L_expire_end i)
  with st obtain db m where c: "timer_expire i (pool (base t)) = Done db"
    and t': "t' = t\<lparr>base := (base t)\<lparr>pool := db\<rparr>, usageTimeoutMux := m,
                    expiring := remove1 i (expiring t)\<rparr>"
    by (auto simp: bind_outcome_Done split: if_splits)
  from t' have "outstanding (base t') = outstanding (base t)" by (simp add: outstanding_def)
  with timer_expire_effect(3)[OF c] inv t' show ?thesis by simp
next
  case (L_cancelled i)
  with st obtain db where c: "timer_cancelled i (pool (base t)) = Done db"
    and t': "t' = t\<lparr>base := (base t)\<lparr>pool := db\<rparr>\<rparr>"
    by (auto simp: bind_outcome_Done split: if_splits)
  from t' have "outstanding (base t') = outstanding (base t)" by (simp add: outstanding_def)
  with timer_cancelled_effect(3)[OF c] inv t' show ?thesis by simp
next
  case L_set_usage_call
  with st have "base t' = base t" by auto
  with inv show ?thesis by simp
next
  case (L_set_usage_run c d)
  with st obtain m' where
    t': "t' = t\<lparr>base := (base t)\<lparr>pool := SetUsageTimeout c d (pool (base t))\<rparr>,
                    usageTimeoutMux := m'\<rparr>"
    by (auto simp: bind_outcome_Done)
  then have "outstanding (base t') = outstanding (base t)" by (simp add: outstanding_def)
  with inv t' show ?thesis by (simp add: SetUsageTimeout_effect)
next
  case L_set_block_call
  with st have "base t' = base t" by auto
  with inv show ?thesis by simp
next
  case (L_set_block_run c)
  with st obtain db m' where c: "SetBlockDurationCh c (pool (base t)) = Done db"
    and t': "t' = t\<lparr>base := (base t)\<lparr>pool := db\<rparr>, blockChMux := m'\<rparr>"
    by (auto simp: bind_outcome_Done)
  from t' have "outstanding (base t') = outstanding (base t)" by (simp add: outstanding_def)
  with SetBlockDurationCh_effect(2)[OF c] inv t' show ?thesis by simp
qed

lemma lstep_unlimited:
  assumes st: "lstep a t = Done t'" and u: "sem (pool (base t)) = None"
    and z: "taking (base t) = 0"
  shows "sem (pool (base t')) = None" and "taking (base t') = 0"
    and "\<not> replaces_blockCh a \<Longrightarrow> settled t \<Longrightarrow>
         blockCh (pool (base t')) = blockCh (pool (base t))"
proof -
  have "sem (pool (base t')) = None \<and> taking (base t') = 0
        \<and> (\<not> replaces_blockCh a \<and> settled t \<longrightarrow>
              blockCh (pool (base t')) = blockCh (pool (base t)))"
  proof (cases a)
    case (L_do x)
    with st have n: "takes_no_lock x" by (auto split: if_splits)
    with L_do st obtain s where s: "step x (base t) = Done s" and t': "t' = t\<lparr>base := s\<rparr>"
      by (auto simp: bind_outcome_Done)
    from step_pool(2,4)[OF s] step_mode[OF s] takes_no_lock_cases[OF n] u z t'
    show ?thesis by simp
  next
    case L_conn_sem
    with st u have
      "t' = t\<lparr>base := (base t)\<lparr>pool := pool (base t), taking := taking (base t) + 0\<rparr>,
                at_usage := at_usage t @ [False]\<rparr>"
      by (simp add: conn_sem_unlimited)
    with u z show ?thesis by simp
  next
    case L_take
    with st u show ?thesis by (simp add: conn_take_eq_unlimited)
  next
    case L_report_begin
    with st have "base t' = base t" by (auto simp: bind_outcome_Done split: if_splits)
    with u z show ?thesis by simp
  next
    case (L_report_end d)
    show ?thesis
    proof (intro conjI impI)
      from L_report_end st obtain db m where c: "report d (pool (base t)) = Done db"
        and t': "t' = t\<lparr>base := (base t)\<lparr>pool := db\<rparr>, blockChMux := m,
                     at_usage := at_usage t @ [True]\<rparr>"
        by (auto simp: bind_outcome_Done split: if_splits)
      from report_effect(1)[OF c] u t' show "sem (pool (base t')) = None"
        by (simp add: follows_def)
      from t' z show "taking (base t') = 0" by simp
      assume "\<not> replaces_blockCh a \<and> settled t"
      with z have "mux_readers (blockChMux t) = 0" by (simp add: settled_def)
      with L_report_end st show "blockCh (pool (base t')) = blockCh (pool (base t))" by simp
    qed
  next
    case (L_conn_usage j stack)
    with st have j: "j < length (at_usage t)" by (auto split: if_splits)
    obtain db r where cu: "conn_usage stack (at_usage t ! j) (pool (base t)) = (db, r)"
      by (cases "conn_usage stack (at_usage t ! j) (pool (base t))")
    with L_conn_usage st j obtain m' where
      t': "t' = t\<lparr>base := (base t)\<lparr>pool := db,
                          taking := taking (base t) - (if at_usage t ! j then 1 else 0),
                          calls := calls (base t) @ [r]\<rparr>,
                    usageTimeoutMux := m', at_usage := remove_nth j (at_usage t)\<rparr>"
      by (auto simp: bind_outcome_Done)
    from cu have e: "db = fst (conn_usage stack (at_usage t ! j) (pool (base t)))" by simp
    from t' u z show ?thesis unfolding e by (simp add: conn_usage_frame)
  next
    case (L_expire_begin i)
    with st have "base t' = base t" by (auto simp: bind_outcome_Done split: if_splits)
    with u z show ?thesis by simp
  next
    case (L_expire_end i)
    with st obtain db m where c: "timer_expire i (pool (base t)) = Done db"
      and t': "t' = t\<lparr>base := (base t)\<lparr>pool := db\<rparr>, usageTimeoutMux := m,
                    expiring := remove1 i (expiring t)\<rparr>"
      by (auto simp: bind_outcome_Done split: if_splits)
    from timer_expire_effect(1,2)[OF c] u z t' show ?thesis by (simp add: follows_def)
  next
    case (L_cancelled i)
    with st obtain db where c: "timer_cancelled i (pool (base t)) = Done db"
      and t': "t' = t\<lparr>base := (base t)\<lparr>pool := db\<rparr>\<rparr>"
      by (auto simp: bind_outcome_Done split: if_splits)
    from timer_cancelled_effect(1,2)[OF c] u z t' show ?thesis by (simp add: follows_def)
  next
    case L_set_usage_call
    with st have "base t' = base t" by auto
    with u z show ?thesis by simp
  next
    case (L_set_usage_run c d)
    with st obtain m' where
      t': "t' = t\<lparr>base := (base t)\<lparr>pool := SetUsageTimeout c d (pool (base t))\<rparr>,
                    usageTimeoutMux := m'\<rparr>"
      by (auto simp: bind_outcome_Done)
    with u z show ?thesis by (simp add: SetUsageTimeout_effect)
  next
    case L_set_block_call
    with st have "base t' = base t" by auto
    with u z show ?thesis by simp
  next
    case (L_set_block_run c)
    with st obtain db m' where c: "SetBlockDurationCh c (pool (base t)) = Done db"
      and t': "t' = t\<lparr>base := (base t)\<lparr>pool := db\<rparr>, blockChMux := m'\<rparr>"
      by (auto simp: bind_outcome_Done)
    from SetBlockDurationCh_effect(1)[OF c] u z t' L_set_block_run show ?thesis
      by (simp add: follows_def)
  qed
  then show "sem (pool (base t')) = None" and "taking (base t') = 0"
    and "\<not> replaces_blockCh a \<Longrightarrow> settled t \<Longrightarrow>
         blockCh (pool (base t')) = blockCh (pool (base t))"
    by simp_all
qed

lemma lexec_settled: "lexec as t = Done t' \<Longrightarrow> settled t \<Longrightarrow> settled t'"
proof (induction as arbitrary: t)
  case Nil
  then show ?case by simp
next
  case (Cons a as)
  from Cons.prems(1) obtain m where m: "lstep a t = Done m" "lexec as m = Done t'"
    by (auto simp: bind_outcome_Done)
  from lstep_settled[OF m(1) Cons.prems(2)] Cons.IH[OF m(2)] show ?case by simp
qed

lemma lexec_bounded:
  "lexec as t = Done t' \<Longrightarrow> settled t \<Longrightarrow> bounded n (pool (base t)) (outstanding (base t)) \<Longrightarrow>
   bounded n (pool (base t')) (outstanding (base t'))"
proof (induction as arbitrary: t)
  case Nil
  then show ?case by simp
next
  case (Cons a as)
  from Cons.prems(1) obtain m where m: "lstep a t = Done m" "lexec as m = Done t'"
    by (auto simp: bind_outcome_Done)
  from lstep_settled[OF m(1) Cons.prems(2)] lstep_bounded[OF m(1) Cons.prems(2,3)]
    Cons.IH[OF m(2)] show ?case by simp
qed

lemma lexec_unlimited:
  "lexec as t = Done t' \<Longrightarrow> settled t \<Longrightarrow> sem (pool (base t)) = None \<Longrightarrow>
   taking (base t) = 0 \<Longrightarrow>
   sem (pool (base t')) = None \<and> taking (base t') = 0
   \<and> (\<not> list_ex replaces_blockCh as \<longrightarrow> blockCh (pool (base t')) = blockCh (pool (base t)))"
proof (induction as arbitrary: t)
  case Nil
  then show ?case by simp
next
  case (Cons a as)
  from Cons.prems(1) obtain m where m: "lstep a t = Done m" "lexec as m = Done t'"
    by (auto simp: bind_outcome_Done)
  note u = lstep_unlimited[OF m(1) Cons.prems(3,4)]
  from Cons.IH[OF m(2) lstep_settled[OF m(1) Cons.prems(2)] u(1,2)] u(3) Cons.prems(2)
  show ?case by auto
qed

lemma hung_run_stuck: "lexec hung_run (linit unlimited_pool) = Done stuck"
  by (simp add: hung_run_def stuck_def linit_def init_def free_mutex_def unlimited_pool_def
      Lock_call_def Lock_enter_def Unlock_def RLock_def RUnlock_def conn_sem_def conn_usage_def
      SetUsageTimeout_def timer_release_def remove_nth_def make_chan_def)

lemma stuck_blocks:
  "lstep (L_conn_usage 0 stack) stuck = Blocked"
  "lstep (L_expire_end 0) stuck = Blocked"
  "lstep (L_set_usage_run c d) stuck = Blocked"
  "sem (pool (base stuck)) = None"
  by (simp_all add: stuck_def RLock_def Lock_enter_def timer_expire_def send_def make_chan_def
      SetUsageTimeout_def unlimited_pool_def)

lemma watched_run_watched: "lexec watched_run (linit unlimited_pool) = Done watched"
  by (simp add: watched_run_def watched_def linit_def init_def free_mutex_def watched_pool_def
      Lock_call_def Lock_enter_def Unlock_def conn_sem_def
      SetUsageTimeout_def unlimited_pool_def)

lemma lstep_conn_usage_outcome:
  assumes ok: "settled t" and j: "j < length (at_usage t)"
  shows "(lstep (L_conn_usage j stack) t = Blocked) = (0 < mux_pending (usageTimeoutMux t))"
    and "mux_pending (usageTimeoutMux t) = 0 \<Longrightarrow>
         lstep (L_conn_usage j stack) t =
           Done (t\<lparr>base := (base t)\<lparr>pool := fst (conn_usage stack (at_usage t ! j) (pool (base t))),
                       taking := taking (base t) - (if at_usage t ! j then 1 else 0),
                       calls := calls (base t) @ [snd (conn_usage stack (at_usage t ! j) (pool (base t)))]\<rparr>,
                   at_usage := remove_nth j (at_usage t)\<rparr>)"
proof -
  from ok have w: "\<not> mux_writer (usageTimeoutMux t)" by (simp add: settled_def)
  show "(lstep (L_conn_usage j stack) t = Blocked) = (0 < mux_pending (usageTimeoutMux t))"
    using j w by (simp add: RLock_def RUnlock_def split_beta)
  assume "mux_pending (usageTimeoutMux t) = 0"
  with j w show "lstep (L_conn_usage j stack) t =
           Done (t\<lparr>base := (base t)\<lparr>pool := fst (conn_usage stack (at_usage t ! j) (pool (base t))),
                       taking := taking (base t) - (if at_usage t ! j then 1 else 0),
                       calls := calls (base t) @ [snd (conn_usage stack (at_usage t ! j) (pool (base t)))]\<rparr>,
                   at_usage := remove_nth j (at_usage t)\<rparr>)"
    by (simp add: RLock_def RUnlock_def split_beta)
qed

lemma unlimited_at_usage:
  assumes ok: "settled t" and z: "taking (base t) = 0" and j: "j < length (at_usage t)"
  shows "\<not> at_usage t ! j"
proof
  assume a: "at_usage t ! j"
  let ?f = "\<lambda>l::bool. if l then 1 else (0::nat)"
  from sum_split_at[OF j, of ?f] obtain K where
    "sum_list (map ?f (at_usage t)) = K + ?f (at_usage t ! j)" by blast
  with ok z a show False by (simp add: settled_def)
qed

text \<open>
  What the second half of \<open>conn()\<close> does on a pool without token channel: with a zero
  timeout nothing, and its closure is the one that does nothing; with a timeout it adds a
  running timer with a fresh cancellation channel, and its closure, run on the pool it
  left, puts the cancellation into that channel and closes it, after which the goroutine
  of the timer takes the cancellation, stops, and cannot report any more.
\<close>

lemma unlimited_conn_usage:
  assumes "sem db = None"
  shows "conn stack db = Done (conn_usage stack False db)"
    and "\<not> rel_lock (snd (conn_usage stack False db))"
    and "sem (fst (conn_usage stack False db)) = None"
    and "blockCh (fst (conn_usage stack False db)) = blockCh db"
    and "usageTimeout db = 0 \<Longrightarrow>
         conn_usage stack False db = (db, dummyRelease) \<and> (\<forall>d. run_release dummyRelease d = Done d)"
    and "usageTimeout db \<noteq> 0 \<Longrightarrow>
         conn_usage stack False db =
           (db\<lparr>timers := timers db @
                 [\<lparr>tm_after = usageTimeout db, tm_stack = stack, tm_cancelCh = make_chan 1,
                   tm_running = True\<rparr>]\<rparr>,
            \<lparr>rel_lock = False, rel_timer = Some (length (timers db))\<rparr>)
         \<and> run_release (snd (conn_usage stack False db)) (fst (conn_usage stack False db)) =
             Done (db\<lparr>timers := timers db @
                 [\<lparr>tm_after = usageTimeout db, tm_stack = stack,
                   tm_cancelCh = \<lparr>ch_cap = 1, ch_buf = [()], ch_closed = True\<rparr>,
                   tm_running = True\<rparr>]\<rparr>)
         \<and> timer_cancelled (length (timers db))
               (db\<lparr>timers := timers db @
                 [\<lparr>tm_after = usageTimeout db, tm_stack = stack,
                   tm_cancelCh = \<lparr>ch_cap = 1, ch_buf = [()], ch_closed = True\<rparr>,
                   tm_running = True\<rparr>]\<rparr>) =
             Done (db\<lparr>timers := timers db @
                 [\<lparr>tm_after = usageTimeout db, tm_stack = stack,
                   tm_cancelCh = \<lparr>ch_cap = 1, ch_buf = [], ch_closed = True\<rparr>,
                   tm_running = False\<rparr>]\<rparr>)
         \<and> timer_expire (length (timers db))
               (db\<lparr>timers := timers db @
                 [\<lparr>tm_after = usageTimeout db, tm_stack = stack,
                   tm_cancelCh = \<lparr>ch_cap = 1, ch_buf = [], ch_closed = True\<rparr>,
                   tm_running = False\<rparr>]\<rparr>) = Blocked"
proof -
  show "conn stack db = Done (conn_usage stack False db)"
    using assms by (rule conn_eq_unlimited)
  show "\<not> rel_lock (snd (conn_usage stack False db))" by (simp add: conn_usage_frame)
  show "sem (fst (conn_usage stack False db)) = None" using assms by (simp add: conn_usage_frame)
  show "blockCh (fst (conn_usage stack False db)) = blockCh db" by (simp add: conn_usage_frame)
  show "usageTimeout db = 0 \<Longrightarrow>
         conn_usage stack False db = (db, dummyRelease) \<and> (\<forall>d. run_release dummyRelease d = Done d)"
    by (simp add: conn_usage_def dummyRelease_def run_release_def releaseLock_def
        cancelUsageTimeout_def)
  assume n: "usageTimeout db \<noteq> 0"
  have 1: "conn_usage stack False db =
           (db\<lparr>timers := timers db @
                 [\<lparr>tm_after = usageTimeout db, tm_stack = stack, tm_cancelCh = make_chan 1,
                   tm_running = True\<rparr>]\<rparr>,
            \<lparr>rel_lock = False, rel_timer = Some (length (timers db))\<rparr>)"
    using n by (simp add: conn_usage_def)
  have 2: "run_release (snd (conn_usage stack False db)) (fst (conn_usage stack False db)) =
             Done (db\<lparr>timers := timers db @
                 [\<lparr>tm_after = usageTimeout db, tm_stack = stack,
                   tm_cancelCh = \<lparr>ch_cap = 1, ch_buf = [()], ch_closed = True\<rparr>,
                   tm_running = True\<rparr>]\<rparr>)"
    using n by (simp add: release_after_usage releaseLock_def)
  have 3: "timer_cancelled (length (timers db))
               (db\<lparr>timers := timers db @
                 [\<lparr>tm_after = usageTimeout db, tm_stack = stack,
                   tm_cancelCh = \<lparr>ch_cap = 1, ch_buf = [()], ch_closed = True\<rparr>,
                   tm_running = True\<rparr>]\<rparr>) =
             Done (db\<lparr>timers := timers db @
                 [\<lparr>tm_after = usageTimeout db, tm_stack = stack,
                   tm_cancelCh = \<lparr>ch_cap = 1, ch_buf = [], ch_closed = True\<rparr>,
                   tm_running = False\<rparr>]\<rparr>)"
    by (simp add: timer_cancelled_def recv_def)
  have 4: "timer_expire (length (timers db))
               (db\<lparr>timers := timers db @
                 [\<lparr>tm_after = usageTimeout db, tm_stack = stack,
                   tm_cancelCh = \<lparr>ch_cap = 1, ch_buf = [], ch_closed = True\<rparr>,
                   tm_running = False\<rparr>]\<rparr>) = Blocked"
    by (simp add: timer_expire_def)
  from 1 2 3 4 show "conn_usage stack False db =
           (db\<lparr>timers := timers db @
                 [\<lparr>tm_after = usageTimeout db, tm_stack = stack, tm_cancelCh = make_chan 1,
                   tm_running = True\<rparr>]\<rparr>,
            \<lparr>rel_lock = False, rel_timer = Some (length (timers db))\<rparr>)
         \<and> run_release (snd (conn_usage stack False db)) (fst (conn_usage stack False db)) =
             Done (db\<lparr>timers := timers db @
                 [\<lparr>tm_after = usageTimeout db, tm_stack = stack,
                   tm_cancelCh = \<lparr>ch_cap = 1, ch_buf = [()], ch_closed = True\<rparr>,
                   tm_running = True\<rparr>]\<rparr>)
         \<and> timer_cancelled (length (timers db))
               (db\<lparr>timers := timers db @
                 [\<lparr>tm_after = usageTimeout db, tm_stack = stack,
                   tm_cancelCh = \<lparr>ch_cap = 1, ch_buf = [()], ch_closed = True\<rparr>,
                   tm_running = True\<rparr>]\<rparr>) =
             Done (db\<lparr>timers := timers db @
                 [\<lparr>tm_after = usageTimeout db, tm_stack = stack,
                   tm_cancelCh = \<lparr>ch_cap = 1, ch_buf = [], ch_closed = True\<rparr>,
                   tm_running = False\<rparr>]\<rparr>)
         \<and> timer_expire (length (timers db))
               (db\<lparr>timers := timers db @
                 [\<lparr>tm_after = usageTimeout db, tm_stack = stack,
                   tm_cancelCh = \<lparr>ch_cap = 1, ch_buf = [], ch_closed = True\<rparr>,
                   tm_running = False\<rparr>]\<rparr>) = Blocked"
    by blast
qed

lemma linit_facts:
  "base (linit db) = init db" "pool (base (linit db)) = db" "taking (base (linit db)) = 0"
  "outstanding (base (linit db)) = 0"
  by (simp_all add: linit_def init_def outstanding_def)

lemma unlimited_reached:
  assumes "new_DB c sqldb = Done db0" and "c \<le> 0" and "lexec as (linit db0) = Done t"
  shows "settled t" and "sem (pool (base t)) = None" and "taking (base t) = 0"
    and "\<not> list_ex replaces_blockCh as \<Longrightarrow> blockCh (pool (base t)) = None"
    and "received t = 0" and "mux_readers (blockChMux t) = 0"
proof -
  from assms(1,2) have u: "sem (pool (base (linit db0))) = None" and b: "blockCh db0 = None"
    by (auto simp: new_DB_unlimited linit_facts outstanding_init)
  show s: "settled t" by (rule lexec_settled[OF assms(3) settled_linit])
  from lexec_unlimited[OF assms(3) settled_linit u] b
  show "sem (pool (base t)) = None" and z: "taking (base t) = 0"
    and "\<not> list_ex replaces_blockCh as \<Longrightarrow> blockCh (pool (base t)) = None"
    by (simp_all add: linit_facts outstanding_init)
  from s z show "received t = 0" and "mux_readers (blockChMux t) = 0"
    by (simp_all add: settled_def)
qed

text \<open>
  C2, as the code has it. Take the pool that \<open>Open\<close> creates under the setting \<open>c\<close>
  and any sequence of steps of the goroutines that share it, mutexes included. With
  \<open>c > 0\<close>, in the state reached the tokens in the channel and the tokens taken and not
  given back add up to \<open>c\<close>, so at most \<open>c\<close> are out. With \<open>c \<le> 0\<close>, the first part of
  \<open>conn()\<close> returns at once and takes nothing, no goroutine is waiting for a token, and a
  \<open>conn()\<close> that has reached \<open>usageTimeoutMux.RLock()\<close> waits there exactly when a call of
  \<open>SetUsageTimeout\<close> is waiting for that mutex; otherwise it returns.
\<close>

theorem tokens_out_within_capacity:
  assumes "new_DB c sqldb = Done db0" and "lexec as (linit db0) = Done t"
  shows "(0 < c \<longrightarrow> outstanding (base t) \<le> nat c
                   \<and> available (pool (base t)) + outstanding (base t) = nat c)
       \<and> (c \<le> 0 \<longrightarrow>
             conn_sem (pool (base t)) = Done (pool (base t), False)
           \<and> lstep L_take t = Blocked
           \<and> (\<forall>j stack. j < length (at_usage t) \<longrightarrow>
                 (lstep (L_conn_usage j stack) t = Blocked) = (0 < mux_pending (usageTimeoutMux t))
               \<and> (mux_pending (usageTimeoutMux t) = 0 \<longrightarrow>
                    (\<exists>t'. lstep (L_conn_usage j stack) t = Done t'))))"
proof (intro conjI impI allI)
  assume c: "0 < c"
  with assms(1) have "bounded (nat c) db0 0"
    by (auto simp: new_DB_bounded bounded_def)
  then have "bounded (nat c) (pool (base (linit db0))) (outstanding (base (linit db0)))"
    by (simp add: linit_facts outstanding_init)
  from lexec_bounded[OF assms(2) settled_linit this]
  have "available (pool (base t)) + outstanding (base t) = nat c"
    by (auto simp: bounded_def available_def split: option.splits)
  then show "outstanding (base t) \<le> nat c"
    and "available (pool (base t)) + outstanding (base t) = nat c"
    by simp_all
next
  assume c: "c \<le> 0"
  note u = unlimited_reached[OF assms(1) c assms(2)]
  show "conn_sem (pool (base t)) = Done (pool (base t), False)"
    using u(2) by (rule conn_sem_unlimited)
  show "lstep L_take t = Blocked" using u(2) by (simp add: conn_take_eq_unlimited)
  fix j stack
  assume j: "j < length (at_usage t)"
  show "(lstep (L_conn_usage j stack) t = Blocked) = (0 < mux_pending (usageTimeoutMux t))"
    by (rule lstep_conn_usage_outcome(1)[OF u(1) j])
  assume "mux_pending (usageTimeoutMux t) = 0"
  from lstep_conn_usage_outcome(2)[OF u(1) j this]
  show "\<exists>t'. lstep (L_conn_usage j stack) t = Done t'" by blast
qed

lemma bounded_run:
  "lexec [L_conn_sem, L_conn_usage 0 ''main'', L_do (A_query 0 (Some [], None))] (linit pool_of_one)
     = Done \<lparr>base = \<lparr>pool = taken_pool, taking = 0, calls = [],
                     cursors = [\<lparr>Rows_sql = Some [], Rows_closed = False, Rows_release = held\<rparr>],
                     singles = [], txs = []\<rparr>,
             blockChMux = free_mutex, usageTimeoutMux = free_mutex, received = 0,
             at_usage = [], expiring = []\<rparr>"
  by (simp add: linit_def init_def free_mutex_def pool_of_one_def taken_pool_def held_def
      RLock_def RUnlock_def conn_sem_def recv_def conn_usage_def remove_nth_def
      Query_finish_def handed_def)

theorem tokens_out_within_capacity_witness:
  "new_DB 1 \<lparr>maxIdleConns = 2\<rparr> = Done pool_of_one
   \<and> lexec [L_conn_sem, L_conn_usage 0 ''main'', L_do (A_query 0 (Some [], None))] (linit pool_of_one)
     = Done \<lparr>base = \<lparr>pool = taken_pool, taking = 0, calls = [],
                     cursors = [\<lparr>Rows_sql = Some [], Rows_closed = False, Rows_release = held\<rparr>],
                     singles = [], txs = []\<rparr>,
             blockChMux = free_mutex, usageTimeoutMux = free_mutex, received = 0,
             at_usage = [], expiring = []\<rparr>
   \<and> outstanding \<lparr>pool = taken_pool, taking = 0, calls = [],
                     cursors = [\<lparr>Rows_sql = Some [], Rows_closed = False, Rows_release = held\<rparr>],
                     singles = [], txs = []\<rparr> \<le> 1
   \<and> new_DB 0 \<lparr>maxIdleConns = 2\<rparr> = Done unlimited_pool
   \<and> lexec watched_run (linit unlimited_pool) = Done watched
   \<and> 0 < length (at_usage watched)
   \<and> mux_pending (usageTimeoutMux watched) = 0
   \<and> (\<exists>t'. lstep (L_conn_usage 0 ''main'') watched = Done t')"
proof -
  have w: "0 < length (at_usage watched)" "mux_pending (usageTimeoutMux watched) = 0"
    by (simp_all add: watched_def free_mutex_def)
  from tokens_out_within_capacity[OF new_DB_pool_of_one bounded_run]
  have 1: "outstanding \<lparr>pool = taken_pool, taking = 0, calls = [],
                     cursors = [\<lparr>Rows_sql = Some [], Rows_closed = False, Rows_release = held\<rparr>],
                     singles = [], txs = []\<rparr> \<le> 1"
    by simp
  from tokens_out_within_capacity[OF new_DB_unlimited_pool watched_run_watched] w
  have 2: "\<exists>t'. lstep (L_conn_usage 0 ''main'') watched = Done t'"
    by simp
  from 1 2 w new_DB_pool_of_one bounded_run new_DB_unlimited_pool watched_run_watched
  show ?thesis by simp
qed

text \<open>
  C2 as written says that acquisition on an unlimited pool never blocks. After the run
  \<open>hung_run\<close> on the pool that \<open>Open\<close> creates under the setting 0, a \<open>conn()\<close> that has
  passed its first part waits at \<open>usageTimeoutMux.RLock()\<close>: the goroutine of timer 0
  holds the mutex for reading at a send that nobody receives, and a call of
  \<open>SetUsageTimeout\<close> waits for the mutex behind it.
\<close>

theorem unlimited_conn_can_wait:
  "new_DB 0 \<lparr>maxIdleConns = 2\<rparr> = Done unlimited_pool
   \<and> lexec hung_run (linit unlimited_pool) = Done stuck
   \<and> sem (pool (base stuck)) = None
   \<and> at_usage stuck = [False]
   \<and> lstep (L_conn_usage 0 ''later'') stuck = Blocked"
  using new_DB_unlimited_pool hung_run_stuck stuck_blocks(1,4)
  by (simp add: stuck_def)

lemma cancel_fresh_later:
  assumes "i < length (timers x)" and "tm_cancelCh (timers x ! i) = make_chan 1"
  shows "run_release \<lparr>rel_lock = False, rel_timer = Some i\<rparr> x =
           Done (x\<lparr>timers := (timers x)[i := (timers x ! i)
                  \<lparr>tm_cancelCh := \<lparr>ch_cap = 1, ch_buf = [()], ch_closed = True\<rparr>\<rparr>]\<rparr>)"
  using assms
  by (simp add: run_release_def releaseLock_def cancelUsageTimeout_def send_def close_chan_def
      make_chan_def)

text \<open>
  C6, as the code has it. Take the pool that \<open>Open\<close> creates under a setting \<open>c \<le> 0\<close>
  and any sequence of steps of the goroutines that share it, mutexes included; let \<open>db\<close>
  be the pool in the state reached.
  \<^item> The first part of \<open>conn()\<close> returns at once and changes nothing; no goroutine waits
    for a token, none is at the send of a wait, and the block-duration channel is still nil
    unless \<open>SetBlockDurationCh\<close> replaced it.
  \<^item> A \<open>conn()\<close> that has reached \<open>usageTimeoutMux.RLock()\<close> holds no token; it waits
    there exactly when a call of \<open>SetUsageTimeout\<close> is waiting for that mutex, and
    otherwise it returns with the pool and the closure that \<open>conn_usage\<close> computes.
  \<^item> That closure sends no token. With a zero timeout the pool is unchanged and the
    closure is \<open>dummyRelease\<close>, which leaves every pool as it is. With a timeout the pool
    has one more timer, running, with a fresh cancellation channel; the closure, run on
    that pool, puts the cancellation into the channel and closes it and changes nothing
    else; the goroutine of the timer then takes the cancellation and stops, and the timer
    cannot report any more. Run on any later pool in which that timer still has its fresh
    cancellation channel, the closure does the same to that timer and nothing else.
\<close>

theorem unlimited_conn_takes_no_token:
  assumes "new_DB c sqldb = Done db0" and "c \<le> 0" and "lexec as (linit db0) = Done t"
  shows "let db = pool (base t) in
         conn_sem db = Done (db, False)
       \<and> lstep L_take t = Blocked
       \<and> lstep L_report_begin t = Blocked
       \<and> lstep (L_report_end d) t = Blocked
       \<and> (\<not> list_ex replaces_blockCh as \<longrightarrow> blockCh db = None)
       \<and> (\<forall>j. j < length (at_usage t) \<longrightarrow>
             \<not> at_usage t ! j
           \<and> (lstep (L_conn_usage j stack) t = Blocked) = (0 < mux_pending (usageTimeoutMux t))
           \<and> (mux_pending (usageTimeoutMux t) = 0 \<longrightarrow>
                lstep (L_conn_usage j stack) t =
                  Done (t\<lparr>base := (base t)\<lparr>pool := fst (conn_usage stack False db),
                                              calls := calls (base t) @ [snd (conn_usage stack False db)]\<rparr>,
                          at_usage := remove_nth j (at_usage t)\<rparr>)))
       \<and> conn stack db = Done (conn_usage stack False db)
       \<and> \<not> rel_lock (snd (conn_usage stack False db))
       \<and> sem (fst (conn_usage stack False db)) = None
       \<and> blockCh (fst (conn_usage stack False db)) = blockCh db
       \<and> (usageTimeout db = 0 \<longrightarrow>
             conn_usage stack False db = (db, dummyRelease)
           \<and> (\<forall>x. run_release dummyRelease x = Done x))
       \<and> (usageTimeout db \<noteq> 0 \<longrightarrow>
             conn_usage stack False db =
               (db\<lparr>timers := timers db @
                     [\<lparr>tm_after = usageTimeout db, tm_stack = stack, tm_cancelCh = make_chan 1,
                       tm_running = True\<rparr>]\<rparr>,
                \<lparr>rel_lock = False, rel_timer = Some (length (timers db))\<rparr>)
           \<and> run_release (snd (conn_usage stack False db)) (fst (conn_usage stack False db)) =
               Done (db\<lparr>timers := timers db @
                     [\<lparr>tm_after = usageTimeout db, tm_stack = stack,
                       tm_cancelCh = \<lparr>ch_cap = 1, ch_buf = [()], ch_closed = True\<rparr>,
                       tm_running = True\<rparr>]\<rparr>)
           \<and> timer_cancelled (length (timers db))
                 (db\<lparr>timers := timers db @
                     [\<lparr>tm_after = usageTimeout db, tm_stack = stack,
                       tm_cancelCh = \<lparr>ch_cap = 1, ch_buf = [()], ch_closed = True\<rparr>,
                       tm_running = True\<rparr>]\<rparr>) =
               Done (db\<lparr>timers := timers db @
                     [\<lparr>tm_after = usageTimeout db, tm_stack = stack,
                       tm_cancelCh = \<lparr>ch_cap = 1, ch_buf = [], ch_closed = True\<rparr>,
                       tm_running = False\<rparr>]\<rparr>)
           \<and> timer_expire (length (timers db))
                 (db\<lparr>timers := timers db @
                     [\<lparr>tm_after = usageTimeout db, tm_stack = stack,
                       tm_cancelCh = \<lparr>ch_cap = 1, ch_buf = [], ch_closed = True\<rparr>,
                       tm_running = False\<rparr>]\<rparr>) = Blocked
           \<and> (\<forall>x. length (timers db) < length (timers x)
                    \<and> tm_cancelCh (timers x ! length (timers db)) = make_chan 1 \<longrightarrow>
                  run_release (snd (conn_usage stack False db)) x =
                    Done (x\<lparr>timers := (timers x)[length (timers db) :=
                           (timers x ! length (timers db))
                             \<lparr>tm_cancelCh := \<lparr>ch_cap = 1, ch_buf = [()], ch_closed = True\<rparr>\<rparr>]\<rparr>)))"
proof -
  note u = unlimited_reached[OF assms]
  let ?db = "pool (base t)"
  have 1: "conn_sem ?db = Done (?db, False)" using u(2) by (rule conn_sem_unlimited)
  have 2: "lstep L_take t = Blocked" using u(2) by (simp add: conn_take_eq_unlimited)
  have 3: "lstep L_report_begin t = Blocked" using u(5) by simp
  have 4: "lstep (L_report_end d) t = Blocked" using u(6) by simp
  have 5: "\<not> list_ex replaces_blockCh as \<longrightarrow> blockCh ?db = None" using u(4) by blast
  have 6: "\<forall>j. j < length (at_usage t) \<longrightarrow>
             \<not> at_usage t ! j
           \<and> (lstep (L_conn_usage j stack) t = Blocked) = (0 < mux_pending (usageTimeoutMux t))
           \<and> (mux_pending (usageTimeoutMux t) = 0 \<longrightarrow>
                lstep (L_conn_usage j stack) t =
                  Done (t\<lparr>base := (base t)\<lparr>pool := fst (conn_usage stack False ?db),
                                              calls := calls (base t) @ [snd (conn_usage stack False ?db)]\<rparr>,
                          at_usage := remove_nth j (at_usage t)\<rparr>))"
  proof (intro allI impI conjI)
    fix j
    assume j: "j < length (at_usage t)"
    show f: "\<not> at_usage t ! j" by (rule unlimited_at_usage[OF u(1,3) j])
    show "(lstep (L_conn_usage j stack) t = Blocked) = (0 < mux_pending (usageTimeoutMux t))"
      by (rule lstep_conn_usage_outcome(1)[OF u(1) j])
    assume "mux_pending (usageTimeoutMux t) = 0"
    from lstep_conn_usage_outcome(2)[OF u(1) j this] f
    show "lstep (L_conn_usage j stack) t =
                  Done (t\<lparr>base := (base t)\<lparr>pool := fst (conn_usage stack False ?db),
                                              calls := calls (base t) @ [snd (conn_usage stack False ?db)]\<rparr>,
                          at_usage := remove_nth j (at_usage t)\<rparr>)"
      by simp
  qed
  note c = unlimited_conn_usage[OF u(2), of stack]
  have 7: "usageTimeout ?db \<noteq> 0 \<longrightarrow>
             (\<forall>x. length (timers ?db) < length (timers x)
                    \<and> tm_cancelCh (timers x ! length (timers ?db)) = make_chan 1 \<longrightarrow>
                  run_release (snd (conn_usage stack False ?db)) x =
                    Done (x\<lparr>timers := (timers x)[length (timers ?db) :=
                           (timers x ! length (timers ?db))
                             \<lparr>tm_cancelCh := \<lparr>ch_cap = 1, ch_buf = [()], ch_closed = True\<rparr>\<rparr>]\<rparr>))"
    using c(6) cancel_fresh_later by simp
  from 1 2 3 4 5 6 7 c show ?thesis unfolding Let_def by blast
qed

lemma release_timer_of_armed: "run_release timer_release armed_pool = Done cancelled_pool"
  by (simp add: run_release_def releaseLock_def cancelUsageTimeout_def timer_release_def
      armed_pool_def cancelled_pool_def send_def close_chan_def make_chan_def)

lemma quiet_run:
  "lexec [L_conn_sem] (linit unlimited_pool)
     = Done ((linit unlimited_pool)\<lparr>at_usage := [False]\<rparr>)"
  by (simp add: linit_def init_def conn_sem_def unlimited_pool_def)

theorem unlimited_conn_takes_no_token_witness:
  "new_DB 0 \<lparr>maxIdleConns = 2\<rparr> = Done unlimited_pool
   \<and> lexec watched_run (linit unlimited_pool) = Done watched
   \<and> pool (base watched) = watched_pool
   \<and> usageTimeout watched_pool \<noteq> 0
   \<and> 0 < length (at_usage watched)
   \<and> mux_pending (usageTimeoutMux watched) = 0
   \<and> conn_sem watched_pool = Done (watched_pool, False)
   \<and> conn ''main'' watched_pool = Done (armed_pool, timer_release)
   \<and> run_release timer_release armed_pool = Done cancelled_pool
   \<and> lexec [L_conn_sem] (linit unlimited_pool) = Done ((linit unlimited_pool)\<lparr>at_usage := [False]\<rparr>)
   \<and> usageTimeout unlimited_pool = 0
   \<and> conn_usage ''main'' False unlimited_pool = (unlimited_pool, dummyRelease)
   \<and> lexec hung_run (linit unlimited_pool) = Done stuck
   \<and> 0 < mux_pending (usageTimeoutMux stuck)
   \<and> lstep (L_conn_usage 0 ''later'') stuck = Blocked"
proof -
  have z: "(0::int) \<le> 0" by simp
  have w: "pool (base watched) = watched_pool" "0 < length (at_usage watched)"
    "mux_pending (usageTimeoutMux watched) = 0"
    by (simp_all add: watched_def free_mutex_def)
  have t: "usageTimeout watched_pool \<noteq> 0" "usageTimeout unlimited_pool = 0"
    by (simp_all add: watched_pool_def unlimited_pool_def SetUsageTimeout_def)
  have p: "0 < mux_pending (usageTimeoutMux stuck)" "0 < length (at_usage stuck)"
    by (simp_all add: stuck_def)
  have 1: "conn_sem watched_pool = Done (watched_pool, False)"
  proof -
    from unlimited_conn_takes_no_token[OF new_DB_unlimited_pool z watched_run_watched,
        where d = 0 and stack = "''main''"]
    have "conn_sem (pool (base watched)) = Done (pool (base watched), False)"
      unfolding Let_def by blast
    with w(1) show ?thesis by simp
  qed
  have 2: "conn_usage ''main'' False unlimited_pool = (unlimited_pool, dummyRelease)"
  proof -
    let ?t = "(linit unlimited_pool)\<lparr>at_usage := [False]\<rparr>"
    have q: "pool (base ?t) = unlimited_pool" by (simp add: linit_def init_def)
    from unlimited_conn_takes_no_token[OF new_DB_unlimited_pool z quiet_run,
        where d = 0 and stack = "''main''"]
    have "usageTimeout (pool (base ?t)) = 0 \<longrightarrow>
            conn_usage ''main'' False (pool (base ?t)) = (pool (base ?t), dummyRelease)
          \<and> (\<forall>x. run_release dummyRelease x = Done x)"
      unfolding Let_def by blast
    with q t(2) show ?thesis by simp
  qed
  have 3: "lstep (L_conn_usage 0 ''later'') stuck = Blocked"
  proof -
    from unlimited_conn_takes_no_token[OF new_DB_unlimited_pool z hung_run_stuck,
        where d = 0 and stack = "''later''"]
    have "\<forall>j. j < length (at_usage stuck) \<longrightarrow>
            (lstep (L_conn_usage j ''later'') stuck = Blocked)
              = (0 < mux_pending (usageTimeoutMux stuck))"
      unfolding Let_def by blast
    with p show ?thesis by blast
  qed
  from 1 2 3 w t p new_DB_unlimited_pool watched_run_watched conn_watched
    release_timer_of_armed quiet_run hung_run_stuck
  show ?thesis by simp
qed

text \<open>
  C6 as written calls the closure a no-op and says that \<open>conn()\<close> never blocks. On an
  unlimited pool with a usage timeout of 5, the closure that \<open>conn()\<close> returns changes
  the pool when it runs (it puts a value into the cancellation channel of its timer and
  closes the channel), and running it a second time panics. And after the run
  \<open>hung_run\<close> on an unlimited pool, a \<open>conn()\<close> waits at \<open>usageTimeoutMux.RLock()\<close>.
\<close>

theorem unlimited_release_not_a_noop:
  "new_DB 0 \<lparr>maxIdleConns = 2\<rparr> = Done unlimited_pool
   \<and> SetUsageTimeout (Some (make_chan 1)) 5 unlimited_pool = watched_pool
   \<and> sem watched_pool = None
   \<and> conn ''main'' watched_pool = Done (armed_pool, timer_release)
   \<and> run_release timer_release armed_pool = Done cancelled_pool
   \<and> cancelled_pool \<noteq> armed_pool
   \<and> run_release timer_release cancelled_pool = Panicked
   \<and> lexec hung_run (linit unlimited_pool) = Done stuck
   \<and> sem (pool (base stuck)) = None
   \<and> lstep (L_conn_usage 0 ''later'') stuck = Blocked"
proof -
  have 2: "run_release timer_release cancelled_pool = Panicked"
    by (simp add: run_release_def releaseLock_def cancelUsageTimeout_def timer_release_def
        cancelled_pool_def send_def)
  have "timers cancelled_pool \<noteq> timers armed_pool"
    by (simp add: cancelled_pool_def armed_pool_def make_chan_def)
  then have 3: "cancelled_pool \<noteq> armed_pool" by auto
  have 4: "sem watched_pool = None"
    by (simp add: watched_pool_def unlimited_pool_def SetUsageTimeout_def)
  from release_timer_of_armed 2 3 4 new_DB_unlimited_pool conn_watched hung_run_stuck
    stuck_blocks(1,4)
  show ?thesis by (simp add: watched_pool_def)
qed

end
